theory Spec2Isabelle
  imports Main "HOL-Library.Sublist"
begin

section \<open>Text, bytes and the character tables of the runtime\<close>

text \<open>
  A Python \<open>str\<close> is a sequence of Unicode code points and a \<open>bytes\<close> object a sequence
  of integers below 256; both are lists of naturals here. \<open>u\<close> turns an ASCII literal
  into its code points.
\<close>

type_synonym str = "nat list"
type_synonym bytes = "nat list"

definition u :: "string \<Rightarrow> str" where
  "u s = map of_char s"

text \<open>
  An element of a parsed HTML document, as \<open>extract_emails_from_html\<close> reads it:
  the tag name, the attributes, \<open>get_text()\<close> of the element and
  \<open>parent.get_text(' ', strip=True)\<close> of its parent (None when it has no parent).
  A document is the list of its tag elements in document order together with
  \<open>get_text(" ")\<close> of the whole tree.
\<close>

record element =
  el_name :: str
  el_attrs :: "(str \<times> str) list"
  el_text :: str
  el_parent_text :: "str option"

record document =
  doc_elements :: "element list"
  doc_text :: str

text \<open>
  What the program takes from the interpreter and its libraries and which is not in the
  repository: the Unicode character database beyond ASCII (decimal digits, alphanumerics,
  white space, lower-casing of a string with a non-ASCII character) and the HTML parser
  \<open>BeautifulSoup(html, 'lxml')\<close>. Every function below takes them as the parameter
  \<open>rt\<close>; the ASCII part of each class is written out.
\<close>

record runtime =
  uc_decimal :: "nat \<Rightarrow> bool"
  uc_alnum :: "nat \<Rightarrow> bool"
  uc_space :: "nat \<Rightarrow> bool"
  uc_lower :: "str \<Rightarrow> str"
  soup :: "str \<Rightarrow> document"

definition is_ascii_digit :: "nat \<Rightarrow> bool" where
  "is_ascii_digit c = (48 \<le> c \<and> c \<le> 57)"

definition is_ascii_alpha :: "nat \<Rightarrow> bool" where
  "is_ascii_alpha c = (65 \<le> c \<and> c \<le> 90 \<or> 97 \<le> c \<and> c \<le> 122)"

text \<open>The classes \<open>\d\<close>, \<open>\w\<close> and \<open>\s\<close> of \<open>re\<close> on a \<open>str\<close> pattern.\<close>

definition is_digit :: "runtime \<Rightarrow> nat \<Rightarrow> bool" where
  "is_digit rt c = (is_ascii_digit c \<or> 128 \<le> c \<and> uc_decimal rt c)"

definition is_word :: "runtime \<Rightarrow> nat \<Rightarrow> bool" where
  "is_word rt c = (is_digit rt c \<or> is_ascii_alpha c \<or> c = 95 \<or> 128 \<le> c \<and> uc_alnum rt c)"

definition is_space :: "runtime \<Rightarrow> nat \<Rightarrow> bool" where
  "is_space rt c = (9 \<le> c \<and> c \<le> 13 \<or> 28 \<le> c \<and> c \<le> 32 \<or> 128 \<le> c \<and> uc_space rt c)"

definition ascii_lower :: "nat \<Rightarrow> nat" where
  "ascii_lower c = (if 65 \<le> c \<and> c \<le> 90 then c + 32 else c)"

text \<open>\<open>str.lower()\<close>: written out on ASCII strings, the runtime's table otherwise.\<close>

definition lower :: "runtime \<Rightarrow> str \<Rightarrow> str" where
  "lower rt t = (if list_all (\<lambda>c. c < 128) t then map ascii_lower t else uc_lower rt t)"

text \<open>\<open>str.strip()\<close> and \<open>' '.join(s.split())\<close>.\<close>

definition strip :: "runtime \<Rightarrow> str \<Rightarrow> str" where
  "strip rt t = rev (dropWhile (is_space rt) (rev (dropWhile (is_space rt) t)))"

fun split_ws :: "runtime \<Rightarrow> str \<Rightarrow> str \<Rightarrow> str list" where
  "split_ws rt w [] = (if w = [] then [] else [rev w])"
| "split_ws rt w (c # cs) =
     (if is_space rt c then (if w = [] then split_ws rt [] cs else rev w # split_ws rt [] cs)
      else split_ws rt (c # w) cs)"

fun join :: "str \<Rightarrow> str list \<Rightarrow> str" where
  "join sep [] = []"
| "join sep [x] = x"
| "join sep (x # y # ys) = x @ sep @ join sep (y # ys)"

text \<open>\<open>sub in s\<close> on strings.\<close>

fun contains :: "str \<Rightarrow> str \<Rightarrow> bool" where
  "contains sub [] = (sub = [])"
| "contains sub (c # cs) = (prefix sub (c # cs) \<or> contains sub cs)"

section \<open>The regular expressions of the program\<close>

text \<open>
  A position of a scan is the character before it (None at the start of the string) and
  the rest of the string. \<open>\b\<close> holds where exactly one side is a word character.
\<close>

definition word_opt :: "runtime \<Rightarrow> nat option \<Rightarrow> bool" where
  "word_opt rt p = (case p of None \<Rightarrow> False | Some c \<Rightarrow> is_word rt c)"

definition boundary :: "runtime \<Rightarrow> nat option \<Rightarrow> str \<Rightarrow> bool" where
  "boundary rt prev rest =
     (word_opt rt prev \<noteq> word_opt rt (case rest of [] \<Rightarrow> None | c # _ \<Rightarrow> Some c))"

definition digit_run :: "runtime \<Rightarrow> str \<Rightarrow> nat" where
  "digit_run rt t = length (takeWhile (is_digit rt) t)"

definition prev_at :: "nat option \<Rightarrow> str \<Rightarrow> nat \<Rightarrow> nat option" where
  "prev_at prev rest k = (if k = 0 then prev else Some (rest ! (k - 1)))"

text \<open>
  \<open>ORDER_RE = \b(\d{6,14})\b\<close> tried at one position: the length of the match. The
  greedy \<open>\d{6,14}\<close> takes up to 14 digits and gives them back one at a time, down to 6,
  until \<open>\b\<close> holds behind it.
\<close>

definition ORDER_RE_match :: "runtime \<Rightarrow> nat option \<Rightarrow> str \<Rightarrow> nat option" where
  "ORDER_RE_match rt prev rest =
     (if boundary rt prev rest
      then find (\<lambda>k. boundary rt (prev_at prev rest k) (drop k rest))
             (rev [6 ..< Suc (min 14 (digit_run rt rest))])
      else None)"

text \<open>\<open>ORDER_RE.finditer(text)\<close>: the matches from left to right, not overlapping.\<close>

fun ORDER_RE_finditer :: "runtime \<Rightarrow> nat option \<Rightarrow> str \<Rightarrow> str list" where
  "ORDER_RE_finditer rt prev [] = []"
| "ORDER_RE_finditer rt prev (c # cs) =
     (case ORDER_RE_match rt prev (c # cs) of
        None \<Rightarrow> ORDER_RE_finditer rt (Some c) cs
      | Some k \<Rightarrow>
          take k (c # cs) # ORDER_RE_finditer rt (Some ((c # cs) ! (k - 1))) (drop (k - 1) cs))"

text \<open>
  A letter of a pattern against a character of the subject under \<open>re.IGNORECASE\<close>:
  the two ASCII cases, and the non-ASCII letters that \<open>re\<close> folds onto \<open>i\<close>, \<open>s\<close>
  and \<open>k\<close> (U+0130, U+0131, U+017F, U+212A).
\<close>

definition ci_eq :: "nat \<Rightarrow> nat \<Rightarrow> bool" where
  "ci_eq p c = (c = p \<or> 97 \<le> p \<and> p \<le> 122 \<and> c + 32 = p
     \<or> p = 105 \<and> (c = 304 \<or> c = 305) \<or> p = 115 \<and> c = 383 \<or> p = 107 \<and> c = 8490)"

fun ci_prefix :: "str \<Rightarrow> str \<Rightarrow> bool" where
  "ci_prefix [] cs = True"
| "ci_prefix (p # ps) [] = False"
| "ci_prefix (p # ps) (c # cs) = (ci_eq p c \<and> ci_prefix ps cs)"

text \<open>
  \<open>Order\s*#\s*(\d{6,14})\<close> with \<open>re.IGNORECASE\<close> tried at one position: group 1 and
  the length of the match. No white space is \<open>#\<close> or a digit, so \<open>\s*\<close> never gives
  a character back; nothing follows the group, so it keeps its first 14 digits.
\<close>

definition order_hash_match :: "runtime \<Rightarrow> str \<Rightarrow> (str \<times> nat) option" where
  "order_hash_match rt rest =
     (if ci_prefix (u ''order'') rest
      then (case dropWhile (is_space rt) (drop 5 rest) of
              [] \<Rightarrow> None
            | c # r2 \<Rightarrow>
                if c = 35
                then (let r3 = dropWhile (is_space rt) r2; n = digit_run rt r3
                      in if 6 \<le> n
                         then Some (take (min 14 n) r3, length rest - length r3 + min 14 n)
                         else None)
                else None)
      else None)"

fun order_hash_finditer :: "runtime \<Rightarrow> str \<Rightarrow> str list" where
  "order_hash_finditer rt [] = []"
| "order_hash_finditer rt (c # cs) =
     (case order_hash_match rt (c # cs) of
        None \<Rightarrow> order_hash_finditer rt cs
      | Some (g, e) \<Rightarrow> g # order_hash_finditer rt (drop (e - 1) cs))"

section \<open>The order extractor\<close>

text \<open>
  Both functions return \<open>list(set)\<close>: a list without repetition whose order Python does
  not fix. The lists here are in order of first occurrence.
\<close>

definition valid_order_numbers_from_text :: "runtime \<Rightarrow> str \<Rightarrow> str list" where
  "valid_order_numbers_from_text rt t =
     (if t = [] then [] else remdups (ORDER_RE_finditer rt None t))"

definition extract_orders :: "runtime \<Rightarrow> str \<Rightarrow> str \<Rightarrow> str \<Rightarrow> str list" where
  "extract_orders rt subject html plain =
     remdups
       ((if subject \<noteq> []
         then order_hash_finditer rt subject @ valid_order_numbers_from_text rt subject
         else [])
        @ (if html \<noteq> [] then valid_order_numbers_from_text rt (doc_text (soup rt html)) else [])
        @ (if plain \<noteq> [] then valid_order_numbers_from_text rt plain else []))"

text \<open>
  \<open>EMAIL_REGEX = [A-Z0-9._%+-]+@[A-Z0-9.-]+\.[A-Z]{2,}\<close>, always used with
  \<open>re.IGNORECASE\<close>: under that flag \<open>[A-Z]\<close> takes the 52 ASCII letters and the
  four non-ASCII letters U+0130, U+0131, U+017F and U+212A.
\<close>

definition email_tld_char :: "nat \<Rightarrow> bool" where
  "email_tld_char c = (is_ascii_alpha c \<or> c = 304 \<or> c = 305 \<or> c = 383 \<or> c = 8490)"

definition email_dom_char :: "nat \<Rightarrow> bool" where
  "email_dom_char c = (email_tld_char c \<or> is_ascii_digit c \<or> c = 46 \<or> c = 45)"

definition email_local_char :: "nat \<Rightarrow> bool" where
  "email_local_char c =
     (email_tld_char c \<or> is_ascii_digit c \<or> c = 46 \<or> c = 95 \<or> c = 37 \<or> c = 43 \<or> c = 45)"

text \<open>
  The pattern tried at one position: the length of the match. The local part is the
  whole run of its class (a shorter one is followed by a character of the class, never
  by \<open>@\<close>). The domain takes the whole run of its class and gives characters back
  until a dot and at least two letters follow; the letters are taken greedily.
\<close>

definition EMAIL_match :: "str \<Rightarrow> nat option" where
  "EMAIL_match rest =
     (let n1 = length (takeWhile email_local_char rest)
      in if n1 = 0 then None
         else (case drop n1 rest of
                 [] \<Rightarrow> None
               | c # r2 \<Rightarrow>
                   if c \<noteq> 64 then None
                   else (case find (\<lambda>k. case drop k r2 of
                                          [] \<Rightarrow> False
                                        | d # r3 \<Rightarrow> d = 46 \<and> 2 \<le> length (takeWhile email_tld_char r3))
                                (rev [1 ..< Suc (length (takeWhile email_dom_char r2))]) of
                           None \<Rightarrow> None
                         | Some k \<Rightarrow>
                             Some (n1 + 1 + k + 1
                                   + length (takeWhile email_tld_char (drop (Suc k) r2))))))"

text \<open>\<open>re.search(EMAIL_REGEX, s, re.IGNORECASE)\<close>: \<open>group(0)\<close> of the leftmost match.\<close>

fun EMAIL_search :: "str \<Rightarrow> str option" where
  "EMAIL_search [] = None"
| "EMAIL_search (c # cs) =
     (case EMAIL_match (c # cs) of
        Some n \<Rightarrow> Some (take n (c # cs))
      | None \<Rightarrow> EMAIL_search cs)"

text \<open>\<open>re.finditer(EMAIL_REGEX, s, re.IGNORECASE)\<close>: \<open>group(0)\<close> of every match.\<close>

fun EMAIL_finditer :: "str \<Rightarrow> str list" where
  "EMAIL_finditer [] = []"
| "EMAIL_finditer (c # cs) =
     (case EMAIL_match (c # cs) of
        None \<Rightarrow> EMAIL_finditer cs
      | Some n \<Rightarrow> take n (c # cs) # EMAIL_finditer (drop (n - 1) cs))"

text \<open>
  \<open>re.search(r"mailto:([^\"]+)", href, re.IGNORECASE)\<close>: \<open>group(1)\<close> of the leftmost
  match, the characters behind the scheme up to the first double quote (34).
\<close>

fun mailto_search :: "str \<Rightarrow> str option" where
  "mailto_search [] = None"
| "mailto_search (c # cs) =
     (if ci_prefix (u ''mailto:'') (c # cs) \<and> takeWhile (\<lambda>x. x \<noteq> 34) (drop 7 (c # cs)) \<noteq> []
      then Some (takeWhile (\<lambda>x. x \<noteq> 34) (drop 7 (c # cs)))
      else mailto_search cs)"

section \<open>The email extractor\<close>

definition SEND_MAIL_CUES :: "str list" where
  "SEND_MAIL_CUES =
     [u ''send mail'', u ''send message'', u ''email buyer'', u ''contact buyer'',
      u ''e-posta g'' @ [246] @ u ''nder'', u ''mesaj g'' @ [246] @ u ''nder'']"

text \<open>\<open>any(cue in text for cue in SEND_MAIL_CUES)\<close> on the stripped, lower-cased text.\<close>

definition has_cue :: "runtime \<Rightarrow> element \<Rightarrow> bool" where
  "has_cue rt el =
     list_ex (\<lambda>cue. contains cue (lower rt (strip rt (el_text el)))) SEND_MAIL_CUES"

text \<open>The addresses one search adds to the set \<open>emails\<close>: none or one, lower-cased.\<close>

definition found_email :: "runtime \<Rightarrow> str \<Rightarrow> str list" where
  "found_email rt s = (case EMAIL_search s of None \<Rightarrow> [] | Some m \<Rightarrow> [lower rt m])"

definition mailto_email :: "runtime \<Rightarrow> element \<Rightarrow> str list" where
  "mailto_email rt a =
     (case map_of (el_attrs a) (u ''href'') of
        None \<Rightarrow> []
      | Some href \<Rightarrow> (case mailto_search href of None \<Rightarrow> [] | Some cand \<Rightarrow> found_email rt cand))"

definition attr_emails :: "runtime \<Rightarrow> element \<Rightarrow> str list" where
  "attr_emails rt el =
     concat (map (\<lambda>attr. case map_of (el_attrs el) attr of
                            None \<Rightarrow> []
                          | Some v \<Rightarrow> found_email rt v)
               [u ''data-email'', u ''data-to'', u ''title'', u ''aria-label''])"

definition neighborhood :: "runtime \<Rightarrow> element \<Rightarrow> str" where
  "neighborhood rt el =
     take 1500 (join (u '' '')
       (split_ws rt [] (case el_parent_text el of None \<Rightarrow> [] | Some t \<Rightarrow> t)))"

text \<open>\<open>soup.find_all('a', href=True)\<close> and \<open>soup.find_all(['a', 'button'])\<close>.\<close>

definition anchors_with_href :: "document \<Rightarrow> element list" where
  "anchors_with_href d =
     filter (\<lambda>e. el_name e = u ''a'' \<and> map_of (el_attrs e) (u ''href'') \<noteq> None) (doc_elements d)"

definition anchors_and_buttons :: "document \<Rightarrow> element list" where
  "anchors_and_buttons d =
     filter (\<lambda>e. el_name e = u ''a'' \<or> el_name e = u ''button'') (doc_elements d)"

text \<open>The three loops of \<open>extract_emails_from_html\<close>, in the order of the source.\<close>

definition cue_link_emails :: "runtime \<Rightarrow> document \<Rightarrow> str list" where
  "cue_link_emails rt d =
     concat (map (\<lambda>a. if has_cue rt a then mailto_email rt a @ attr_emails rt a else [])
               (anchors_with_href d))"

definition cue_button_emails :: "runtime \<Rightarrow> document \<Rightarrow> str list" where
  "cue_button_emails rt d =
     concat (map (\<lambda>el. if has_cue rt el
                        then attr_emails rt el @ found_email rt (neighborhood rt el)
                        else [])
               (anchors_and_buttons d))"

definition mailto_fallback_emails :: "runtime \<Rightarrow> document \<Rightarrow> str list" where
  "mailto_fallback_emails rt d = concat (map (mailto_email rt) (anchors_with_href d))"

definition extract_emails_from_html :: "runtime \<Rightarrow> str \<Rightarrow> str list" where
  "extract_emails_from_html rt html =
     (if html = [] then []
      else remdups (cue_link_emails rt (soup rt html)
                    @ cue_button_emails rt (soup rt html)
                    @ mailto_fallback_emails rt (soup rt html)))"

definition extract_emails_from_text :: "runtime \<Rightarrow> str \<Rightarrow> str list" where
  "extract_emails_from_text rt t =
     (if t = [] then [] else remdups (map (lower rt) (EMAIL_finditer t)))"

text \<open>
  The settings at the head of the script that the properties below speak of: the cap on the
  number of messages (\<open>MAX_MESSAGES\<close>, None or an integer) and the exclusion of the
  sender's own domain.
\<close>

record config =
  MAX_MESSAGES :: "int option"
  EXCLUDE_ETSY_DOMAIN :: bool

definition default_config :: config where
  "default_config = \<lparr>MAX_MESSAGES = Some 50, EXCLUDE_ETSY_DOMAIN = True\<rparr>"

definition filter_buyer_emails :: "config \<Rightarrow> str list \<Rightarrow> str list" where
  "filter_buyer_emails cfg emails =
     remdups (filter (\<lambda>e. e \<noteq> [] \<and> \<not> (EXCLUDE_ETSY_DOMAIN cfg \<and> suffix (u ''@etsy.com'') e))
                emails)"

section \<open>Decoding a body\<close>

text \<open>The exceptions that the modelled code can raise.\<close>

datatype error =
  HttpError
| AuthError
| KeyError
| UnicodeEncodeError
| BinasciiError
| SystemExit nat

text \<open>
  \<open>str.encode('utf-8')\<close>: a surrogate code point (U+D800 to U+DFFF) cannot be encoded
  and raises.
\<close>

definition utf8_encode_char :: "nat \<Rightarrow> error + bytes" where
  "utf8_encode_char c =
     (if c < 128 then Inr [c]
      else if c < 2048 then Inr [192 + c div 64, 128 + c mod 64]
      else if 55296 \<le> c \<and> c \<le> 57343 then Inl UnicodeEncodeError
      else if c < 65536 then Inr [224 + c div 4096, 128 + (c div 64) mod 64, 128 + c mod 64]
      else Inr [240 + c div 262144, 128 + (c div 4096) mod 64, 128 + (c div 64) mod 64,
                128 + c mod 64])"

fun utf8_encode :: "str \<Rightarrow> error + bytes" where
  "utf8_encode [] = Inr []"
| "utf8_encode (c # cs) =
     (case utf8_encode_char c of
        Inl e \<Rightarrow> Inl e
      | Inr bs \<Rightarrow> (case utf8_encode cs of Inl e \<Rightarrow> Inl e | Inr r \<Rightarrow> Inr (bs @ r)))"

text \<open>
  \<open>base64.urlsafe_b64decode\<close> maps \<open>-\<close> to \<open>+\<close> and \<open>_\<close> to \<open>/\<close> and calls
  \<open>binascii.a2b_base64\<close>, not strict. \<open>b64_value\<close> is the value of a byte of the
  alphabet after that translation, None for every other byte.
\<close>

definition b64_value :: "nat \<Rightarrow> nat option" where
  "b64_value c =
     (if 65 \<le> c \<and> c \<le> 90 then Some (c - 65)
      else if 97 \<le> c \<and> c \<le> 122 then Some (c - 71)
      else if 48 \<le> c \<and> c \<le> 57 then Some (c + 4)
      else if c = 43 \<or> c = 45 then Some 62
      else if c = 47 \<or> c = 95 then Some 63
      else None)"

definition emit :: "nat \<Rightarrow> error + bytes \<Rightarrow> error + bytes" where
  "emit b r = (case r of Inl e \<Rightarrow> Inl e | Inr bs \<Rightarrow> Inr (b # bs))"

text \<open>
  The loop of \<open>a2b_base64\<close> over the input, with its state \<open>quad_pos\<close>, \<open>leftchar\<close>
  and \<open>pads\<close>. A byte outside the alphabet is skipped; \<open>=\<close> (61) ends the input once
  it completes a quad that holds two characters or more; input that ends inside a quad
  raises \<open>binascii.Error\<close>.
\<close>

fun a2b_base64 :: "nat \<Rightarrow> nat \<Rightarrow> nat \<Rightarrow> bytes \<Rightarrow> error + bytes" where
  "a2b_base64 quad_pos leftchar pads [] = (if quad_pos \<noteq> 0 then Inl BinasciiError else Inr [])"
| "a2b_base64 quad_pos leftchar pads (c # cs) =
     (if c = 61
      then (if 2 \<le> quad_pos \<and> 4 \<le> quad_pos + (pads + 1) then Inr []
            else a2b_base64 quad_pos leftchar (if 2 \<le> quad_pos then pads + 1 else pads) cs)
      else (case b64_value c of
              None \<Rightarrow> a2b_base64 quad_pos leftchar pads cs
            | Some v \<Rightarrow>
                if quad_pos = 0 then a2b_base64 1 v 0 cs
                else if quad_pos = 1
                  then emit (leftchar * 4 + v div 16) (a2b_base64 2 (v mod 16) 0 cs)
                else if quad_pos = 2
                  then emit (leftchar * 16 + v div 4) (a2b_base64 3 (v mod 4) 0 cs)
                else emit (leftchar * 64 + v) (a2b_base64 0 0 0 cs)))"

definition urlsafe_b64decode :: "bytes \<Rightarrow> error + bytes" where
  "urlsafe_b64decode s = a2b_base64 0 0 0 s"

text \<open>
  \<open>bytes.decode('utf-8', errors='replace')\<close>. \<open>utf8_step\<close> reads one character
  from the head of a non-empty input: the code point and the number of bytes taken.
  An invalid start byte, or a sequence broken by a byte that cannot continue it, or cut
  by the end of the input, gives U+FFFD (65533) and takes the bytes read so far.
\<close>

definition is_cont :: "nat \<Rightarrow> bool" where
  "is_cont b = (128 \<le> b \<and> b < 192)"

fun utf8_step :: "bytes \<Rightarrow> nat \<times> nat" where
  "utf8_step [] = (65533, 0)"
| "utf8_step (ch # s) =
     (if ch < 128 then (ch, 1)
      else if ch < 194 then (65533, 1)
      else if ch < 224 then
        (case s of
           [] \<Rightarrow> (65533, 1)
         | ch2 # s2 \<Rightarrow> if is_cont ch2 then ((ch mod 32) * 64 + ch2 mod 64, 2) else (65533, 1))
      else if ch < 240 then
        (case s of
           [] \<Rightarrow> (65533, 1)
         | ch2 # s2 \<Rightarrow>
             if \<not> is_cont ch2 \<or> (if ch2 < 160 then ch = 224 else ch = 237) then (65533, 1)
             else (case s2 of
                     [] \<Rightarrow> (65533, 2)
                   | ch3 # s3 \<Rightarrow>
                       if is_cont ch3
                       then (((ch mod 16) * 64 + ch2 mod 64) * 64 + ch3 mod 64, 3)
                       else (65533, 2)))
      else if ch < 245 then
        (case s of
           [] \<Rightarrow> (65533, 1)
         | ch2 # s2 \<Rightarrow>
             if \<not> is_cont ch2 \<or> (if ch2 < 144 then ch = 240 else ch = 244) then (65533, 1)
             else (case s2 of
                     [] \<Rightarrow> (65533, 2)
                   | ch3 # s3 \<Rightarrow>
                       if \<not> is_cont ch3 then (65533, 2)
                       else (case s3 of
                               [] \<Rightarrow> (65533, 3)
                             | ch4 # s4 \<Rightarrow>
                                 if is_cont ch4
                                 then ((((ch mod 8) * 64 + ch2 mod 64) * 64 + ch3 mod 64) * 64
                                       + ch4 mod 64, 4)
                                 else (65533, 3))))
      else (65533, 1))"

fun utf8_decode_replace :: "bytes \<Rightarrow> str" where
  "utf8_decode_replace [] = []"
| "utf8_decode_replace (b # bs) =
     (case utf8_step (b # bs) of (c, n) \<Rightarrow> c # utf8_decode_replace (drop (n - 1) bs))"

definition decode_part_data :: "str \<Rightarrow> error + str" where
  "decode_part_data data_b64 =
     (case utf8_encode data_b64 of
        Inl e \<Rightarrow> Inl e
      | Inr s \<Rightarrow> (case urlsafe_b64decode s of
                    Inl e \<Rightarrow> Inl e
                  | Inr raw \<Rightarrow> Inr (utf8_decode_replace raw)))"

section \<open>The payload flattener\<close>

text \<open>
  A header is a dictionary with the keys \<open>name\<close> and \<open>value\<close>, a payload node one
  with \<open>mimeType\<close>, \<open>body.data\<close>, \<open>parts\<close> and \<open>headers\<close>; a key that is absent
  is None.
\<close>

record header =
  h_name :: "str option"
  h_value :: "str option"

datatype payload =
  Payload (p_mimeType: "str option") (p_data: "str option")
          (p_parts: "payload list option") (p_headers: "header list option")

text \<open>
  The statements \<open>mime = p.get('mimeType', '')\<close>, \<open>data = p.get('body', {}).get('data')\<close>,
  \<open>if data: yield mime, decode_part_data(data)\<close>, which occur twice in the source.
\<close>

definition yield_own :: "str option \<Rightarrow> str option \<Rightarrow> error + (str \<times> str) list" where
  "yield_own mime data =
     (case data of
        None \<Rightarrow> Inr []
      | Some d \<Rightarrow>
          if d = [] then Inr []
          else (case decode_part_data d of
                  Inl e \<Rightarrow> Inl e
                | Inr content \<Rightarrow> Inr [(case mime of None \<Rightarrow> [] | Some m \<Rightarrow> m, content)]))"

text \<open>
  The generator, as the list of the pairs it yields, or the exception that ends it
  (the caller drops the pairs of a message whose generator raises).
  \<open>iter_parts\<close> is the loop \<open>for p in payload['parts']\<close>.
\<close>

fun iter_payload_parts :: "payload \<Rightarrow> error + (str \<times> str) list"
  and iter_parts :: "payload list \<Rightarrow> error + (str \<times> str) list" where
  "iter_payload_parts (Payload mime data parts hs) =
     (case parts of
        Some ps \<Rightarrow> iter_parts ps
      | None \<Rightarrow> yield_own mime data)"
| "iter_parts [] = Inr []"
| "iter_parts (p # ps) =
     (case yield_own (p_mimeType p) (p_data p) of
        Inl e \<Rightarrow> Inl e
      | Inr own \<Rightarrow>
          (case iter_payload_parts p of
             Inl e \<Rightarrow> Inl e
           | Inr sub \<Rightarrow>
               (case iter_parts ps of
                  Inl e \<Rightarrow> Inl e
                | Inr rest \<Rightarrow> Inr (own @ sub @ rest))))"

fun header_get :: "runtime \<Rightarrow> header list \<Rightarrow> str \<Rightarrow> str option" where
  "header_get rt [] name = None"
| "header_get rt (h # hs) name =
     (if lower rt (case h_name h of None \<Rightarrow> [] | Some n \<Rightarrow> n) = lower rt name
      then h_value h
      else header_get rt hs name)"

section \<open>The mailbox client\<close>

text \<open>
  The Gmail service is outside the repository; the program sees three of its calls.
  \<open>list_messages\<close> is \<open>messages().list(q=query, pageToken=t, maxResults=500).execute()\<close>
  as a function of the page token, \<open>get_message\<close> is
  \<open>messages().get(id=i, format='full').execute()\<close>, and \<open>estimate\<close> is the first call
  of \<open>main\<close>, \<open>messages().list(q=BASE_QUERY, maxResults=1).execute()\<close>, with the value
  of \<open>resultSizeEstimate\<close>. An entry of \<open>messages\<close> is given by the value of its key
  \<open>id\<close>, None when the key is absent.
\<close>

record page =
  pg_messages :: "str option list option"
  pg_nextPageToken :: "str option"

record message =
  msg_payload :: "payload option"

record service =
  list_messages :: "str option \<Rightarrow> error + page"
  get_message :: "str \<Rightarrow> error + message"
  estimate :: "error + nat option"

text \<open>How a generator or a run ends; \<open>Unfinished\<close> is a loop that is still running.\<close>

datatype ending = Returned | Raised error | Unfinished

text \<open>\<open>MAX_MESSAGES and seen >= MAX_MESSAGES\<close>: None and 0 are both false.\<close>

definition cap_reached :: "int option \<Rightarrow> int \<Rightarrow> bool" where
  "cap_reached cap seen = (case cap of None \<Rightarrow> False | Some n \<Rightarrow> n \<noteq> 0 \<and> n \<le> seen)"

text \<open>
  The loop \<open>for m in resp.get('messages', [])\<close>: the ids it yields, the new value of
  \<open>seen\<close>, and how the generator ended inside the loop (None when the loop ran to its
  end).
\<close>

fun messages_loop :: "int option \<Rightarrow> int \<Rightarrow> str option list \<Rightarrow> str list \<times> int \<times> ending option" where
  "messages_loop cap seen [] = ([], seen, None)"
| "messages_loop cap seen (m # ms) =
     (case m of
        None \<Rightarrow> ([], seen, Some (Raised KeyError))
      | Some i \<Rightarrow>
          if cap_reached cap (seen + 1) then ([i], seen + 1, Some Returned)
          else (case messages_loop cap (seen + 1) ms of
                  (ids, seen', r) \<Rightarrow> (i # ids, seen', r)))"

text \<open>
  The generator \<open>search_message_ids\<close>: the ids it yields and how it ends. The loop
  \<open>while True\<close> runs as long as the service returns page tokens, so it takes fuel, one
  unit for each page.
\<close>

fun search_message_ids ::
    "nat \<Rightarrow> service \<Rightarrow> int option \<Rightarrow> str option \<Rightarrow> int \<Rightarrow> str list \<times> ending" where
  "search_message_ids 0 svc cap next_page seen = ([], Unfinished)"
| "search_message_ids (Suc fuel) svc cap next_page seen =
     (case list_messages svc next_page of
        Inl e \<Rightarrow> ([], Raised e)
      | Inr resp \<Rightarrow>
          (case messages_loop cap seen (case pg_messages resp of None \<Rightarrow> [] | Some ms \<Rightarrow> ms) of
             (ids, seen', Some r) \<Rightarrow> (ids, r)
           | (ids, seen', None) \<Rightarrow>
               (case pg_nextPageToken resp of
                  None \<Rightarrow> (ids, Returned)
                | Some t \<Rightarrow>
                    if t = [] then (ids, Returned)
                    else (case search_message_ids fuel svc cap (Some t) seen' of
                            (ids2, r) \<Rightarrow> (ids @ ids2, r)))))"

section \<open>The main loop\<close>

record row =
  row_message_id :: str
  row_date :: str
  row_subject :: str
  order_number :: str
  buyer_email :: str

record run_state =
  rows :: "row list"
  seen_pairs :: "(str \<times> str) set"
  processed :: nat

definition initial_state :: run_state where
  "initial_state = \<lparr>rows = [], seen_pairs = {}, processed = 0\<rparr>"

text \<open>
  The lines \<open>emails = set(extract_emails_from_html(html))\<close>,
  \<open>if not emails: emails |= set(extract_emails_from_text(plain))\<close>: the candidates, and
  whether the plain text was consulted.
\<close>

definition message_emails :: "runtime \<Rightarrow> str \<Rightarrow> str \<Rightarrow> str list \<times> bool" where
  "message_emails rt html plain =
     (let emails = extract_emails_from_html rt html
      in if emails = [] then (emails @ extract_emails_from_text rt plain, True)
         else (emails, False))"

text \<open>\<open>re.fullmatch(r"\d{6,14}", o)\<close>.\<close>

definition order_fullmatch :: "runtime \<Rightarrow> str \<Rightarrow> bool" where
  "order_fullmatch rt s = (list_all (is_digit rt) s \<and> 6 \<le> length s \<and> length s \<le> 14)"

text \<open>The body of the two nested loops over \<open>orders\<close> and \<open>emails\<close>.\<close>

definition add_pair :: "str \<Rightarrow> str \<Rightarrow> str \<Rightarrow> run_state \<Rightarrow> str \<Rightarrow> str \<Rightarrow> run_state" where
  "add_pair msg_id dt subj st ordr em =
     (if ordr = [] \<or> em = [] then st
      else if (ordr, em) \<in> seen_pairs st then st
      else st\<lparr>rows := rows st @ [\<lparr>row_message_id = msg_id, row_date = dt, row_subject = subj,
                                   order_number = ordr, buyer_email = em\<rparr>],
              seen_pairs := insert (ordr, em) (seen_pairs st)\<rparr>)"

definition add_pairs :: "str \<Rightarrow> str \<Rightarrow> str \<Rightarrow> str list \<Rightarrow> str list \<Rightarrow> run_state \<Rightarrow> run_state" where
  "add_pairs msg_id dt subj orders emails st =
     foldl (\<lambda>s1 ordr. foldl (\<lambda>s2 em. add_pair msg_id dt subj s2 ordr em) s1 emails) st orders"

text \<open>The chunks of one kind, joined: \<open>'html' in mime\<close>, \<open>elif 'text' in mime\<close>.\<close>

definition html_of :: "(str \<times> str) list \<Rightarrow> str" where
  "html_of chunks = join [10] (map snd (filter (\<lambda>(mime, c). contains (u ''html'') mime) chunks))"

definition plain_of :: "(str \<times> str) list \<Rightarrow> str" where
  "plain_of chunks =
     join [10] (map snd (filter (\<lambda>(mime, c). \<not> contains (u ''html'') mime
                                              \<and> contains (u ''text'') mime) chunks))"

text \<open>
  \<open>payload = msg.get('payload', {})\<close>, and the two headers read from it,
  \<open>header_get(headers, 'Subject') or ''\<close> and \<open>header_get(headers, 'Date') or ''\<close>.
\<close>

definition payload_of :: "message \<Rightarrow> payload" where
  "payload_of msg = (case msg_payload msg of None \<Rightarrow> Payload None None None None | Some p \<Rightarrow> p)"

definition header_or_empty :: "runtime \<Rightarrow> payload \<Rightarrow> str \<Rightarrow> str" where
  "header_or_empty rt payload name =
     (case header_get rt (case p_headers payload of None \<Rightarrow> [] | Some hs \<Rightarrow> hs) name of
        None \<Rightarrow> []
      | Some v \<Rightarrow> v)"

text \<open>
  The candidates of one message, before the cleaning: the orders and the emails
  extracted from its subject and its decoded chunks, or the exception of the decoding.
\<close>

definition candidates :: "runtime \<Rightarrow> payload \<Rightarrow> error + (str list \<times> str list)" where
  "candidates rt payload =
     (case iter_payload_parts payload of
        Inl e \<Rightarrow> Inl e
      | Inr chunks \<Rightarrow>
          Inr (extract_orders rt (header_or_empty rt payload (u ''Subject''))
                 (html_of chunks) (plain_of chunks),
               fst (message_emails rt (html_of chunks) (plain_of chunks))))"

text \<open>
  The body of the loop over the message ids, with its two handlers: a message whose
  fetch or decoding raises is reported and leaves the state as it was.
\<close>

definition process_message :: "runtime \<Rightarrow> config \<Rightarrow> service \<Rightarrow> run_state \<Rightarrow> str \<Rightarrow> run_state" where
  "process_message rt cfg svc st msg_id =
     (case get_message svc msg_id of
        Inl e \<Rightarrow> st
      | Inr msg \<Rightarrow>
          (case candidates rt (payload_of msg) of
             Inl e \<Rightarrow> st
           | Inr (orders, emails) \<Rightarrow>
               (let st' = add_pairs msg_id
                            (header_or_empty rt (payload_of msg) (u ''Date''))
                            (header_or_empty rt (payload_of msg) (u ''Subject''))
                            (filter (order_fullmatch rt) orders)
                            (filter_buyer_emails cfg emails) st
                in st'\<lparr>processed := processed st' + 1\<rparr>)))"

text \<open>
  What a run leaves behind: the output file (None as long as it was not written, else
  its rows, the header first) and the number in the last line printed,
  \<open>Tamamlandi. N kayit yazildi\<close>. A statement changes the world and may raise.
\<close>

record world =
  csv_file :: "str list list option"
  summary :: "nat option"

type_synonym stmt = "world \<Rightarrow> error option \<times> world"

definition then_do :: "stmt \<Rightarrow> stmt \<Rightarrow> stmt" where
  "then_do s1 s2 w = (case s1 w of (Some e, w') \<Rightarrow> (Some e, w') | (None, w') \<Rightarrow> s2 w')"

definition sys_exit :: "nat \<Rightarrow> stmt" where
  "sys_exit n w = (Some (SystemExit n), w)"

definition csv_table :: "row list \<Rightarrow> str list list" where
  "csv_table rs =
     [u ''order_number'', u ''buyer_email'']
     # map (\<lambda>r. [order_number r, buyer_email r])
         (filter (\<lambda>r. order_number r \<noteq> [] \<and> buyer_email r \<noteq> []) rs)"

definition write_csv :: "row list \<Rightarrow> stmt" where
  "write_csv rs w = (None, w\<lparr>csv_file := Some (csv_table rs)\<rparr>)"

definition print_summary :: "nat \<Rightarrow> stmt" where
  "print_summary n w = (None, w\<lparr>summary := Some n\<rparr>)"

text \<open>
  The handler \<open>except HttpError as e\<close> of the listing loop: in the source the block
  that writes the file is indented under this handler, behind \<open>sys.exit(2)\<close>.
\<close>

definition listing_handler :: "row list \<Rightarrow> stmt" where
  "listing_handler rs = then_do (sys_exit 2) (write_csv rs)"

text \<open>
  \<open>main\<close>: the exception that ends the run (None when it ends normally) and the world it
  leaves, or None when the listing is still running after \<open>fuel\<close> pages. The first
  argument of the run is the result of \<open>get_service()\<close>.
\<close>

definition main ::
    "nat \<Rightarrow> runtime \<Rightarrow> config \<Rightarrow> error + service \<Rightarrow> world \<Rightarrow> (error option \<times> world) option" where
  "main fuel rt cfg conn w =
     (case conn of
        Inl e \<Rightarrow> Some (sys_exit 1 w)
      | Inr svc \<Rightarrow>
          (case estimate svc of
             Inl e \<Rightarrow> Some (Some e, w)
           | Inr total_est \<Rightarrow>
               (case search_message_ids fuel svc (MAX_MESSAGES cfg) None 0 of
                  (ids, r) \<Rightarrow>
                    (let st = foldl (process_message rt cfg svc) initial_state ids
                     in case r of
                          Unfinished \<Rightarrow> None
                        | Raised e \<Rightarrow>
                            if e = HttpError then Some (listing_handler (rows st) w)
                            else Some (Some e, w)
                        | Returned \<Rightarrow> Some (print_summary (length (rows st)) w)))))"

section \<open>Predicates of the statements and inputs of the examples\<close>

text \<open>A service whose listing is one page with the given ids and no further page.\<close>

definition one_page :: "str list \<Rightarrow> service" where
  "one_page ids =
     \<lparr>list_messages = (\<lambda>t. Inr \<lparr>pg_messages = Some (map Some ids), pg_nextPageToken = None\<rparr>),
      get_message = (\<lambda>i. Inl HttpError),
      estimate = Inr None\<rparr>"

text \<open>
  A runtime for the examples: of the Unicode tables it has the Arabic-Indic digits
  U+0660 to U+0669 (decimal digits and alphanumerics) and the no-break space U+00A0;
  its parser knows two documents, an anchor \<open>Contact Buyer\<close> to
  \<open>mailto:jane@example.com\<close> for a text that starts with \<open><a>\<close> and an anchor \<open>Help\<close> to
  \<open>mailto:Support@etsy.com\<close> for one that starts with \<open><b>\<close>.
\<close>

definition doc_jane :: document where
  "doc_jane =
     \<lparr>doc_elements = [\<lparr>el_name = u ''a'', el_attrs = [(u ''href'', u ''mailto:jane@example.com'')],
                        el_text = u ''Contact Buyer'', el_parent_text = Some (u ''Contact Buyer'')\<rparr>],
      doc_text = u ''Contact Buyer''\<rparr>"

definition doc_etsy :: document where
  "doc_etsy =
     \<lparr>doc_elements = [\<lparr>el_name = u ''a'', el_attrs = [(u ''href'', u ''mailto:Support@etsy.com'')],
                        el_text = u ''Help'', el_parent_text = Some (u ''Help'')\<rparr>],
      doc_text = u ''Help''\<rparr>"

definition rt_sample :: runtime where
  "rt_sample =
     \<lparr>uc_decimal = (\<lambda>c. 1632 \<le> c \<and> c \<le> 1641),
      uc_alnum = (\<lambda>c. 1632 \<le> c \<and> c \<le> 1641),
      uc_space = (\<lambda>c. c = 160),
      uc_lower = (\<lambda>t. t),
      soup = (\<lambda>html. if prefix (u ''<a>'') html then doc_jane
                       else if prefix (u ''<b>'') html then doc_etsy
                       else \<lparr>doc_elements = [], doc_text = html\<rparr>)\<rparr>"

text \<open>
  Two messages with the subject \<open>Your Etsy order [Order #12345678] has shipped\<close> and
  one HTML body: \<open>PGE-\<close> is the base64 of \<open><a>\<close> and \<open>PGI-\<close> that of \<open><b>\<close>.
  The service lists the message \<open>m1\<close> twice and then \<open>m2\<close>.
\<close>

definition shipped_headers :: "header list" where
  "shipped_headers =
     [\<lparr>h_name = Some (u ''Subject''),
       h_value = Some (u ''Your Etsy order [Order #12345678] has shipped'')\<rparr>]"

definition msg_jane :: message where
  "msg_jane =
     \<lparr>msg_payload = Some (Payload (Some (u ''text/html'')) (Some (u ''PGE-'')) None
                           (Some shipped_headers))\<rparr>"

definition msg_etsy :: message where
  "msg_etsy =
     \<lparr>msg_payload = Some (Payload (Some (u ''text/html'')) (Some (u ''PGI-'')) None
                           (Some shipped_headers))\<rparr>"

definition svc_sample :: service where
  "svc_sample =
     \<lparr>list_messages =
        (\<lambda>t. Inr \<lparr>pg_messages = Some [Some (u ''m1''), Some (u ''m1''), Some (u ''m2'')],
                  pg_nextPageToken = None\<rparr>),
      get_message = (\<lambda>i. if i = u ''m1'' then Inr msg_jane
                          else if i = u ''m2'' then Inr msg_etsy
                          else Inl HttpError),
      estimate = Inr (Some 3)\<rparr>"

definition pair_of :: "row \<Rightarrow> str \<times> str" where
  "pair_of r = (order_number r, buyer_email r)"

text \<open>The invariant of the main loop that keeps the rows unique.\<close>

definition dedup_inv :: "run_state \<Rightarrow> bool" where
  "dedup_inv st = (distinct (map pair_of (rows st)) \<and> seen_pairs st = set (map pair_of (rows st)))"

text \<open>The invariant of the main loop under the exclusion of the domain.\<close>

definition no_etsy :: "run_state \<Rightarrow> bool" where
  "no_etsy st = list_all (\<lambda>r. \<not> suffix (u ''@etsy.com'') (buyer_email r)) (rows st)"





text \<open>
  A standalone token of a text \<open>pre @ tok @ post\<close>: 6 to 14 digits, with no word
  character (or nothing) before and behind it.
\<close>

definition last_opt :: "str \<Rightarrow> nat option" where
  "last_opt s = (if s = [] then None else Some (last s))"

definition head_opt :: "str \<Rightarrow> nat option" where
  "head_opt s = (case s of [] \<Rightarrow> None | c # _ \<Rightarrow> Some c)"

definition standalone :: "runtime \<Rightarrow> str \<Rightarrow> str \<Rightarrow> str \<Rightarrow> bool" where
  "standalone rt pre tok post =
     (order_fullmatch rt tok \<and> \<not> word_opt rt (last_opt pre) \<and> \<not> word_opt rt (head_opt post))"

text \<open>
  An address of the grammar of \<open>EMAIL_REGEX\<close>, given by its parts: a local part, a
  domain and a top-level domain of at least two letters. \<open>ends_address\<close> says that
  the text behind an address does not continue its domain.
\<close>

definition email_address :: "str \<Rightarrow> str \<Rightarrow> str \<Rightarrow> str" where
  "email_address local dmn tld = local @ [64] @ dmn @ [46] @ tld"

definition address_parts :: "str \<Rightarrow> str \<Rightarrow> str \<Rightarrow> bool" where
  "address_parts local dmn tld =
     (local \<noteq> [] \<and> list_all email_local_char local
      \<and> dmn \<noteq> [] \<and> list_all email_dom_char dmn
      \<and> 2 \<le> length tld \<and> list_all email_tld_char tld)"

definition ends_address :: "str \<Rightarrow> bool" where
  "ends_address rest = (case rest of [] \<Rightarrow> True | c # _ \<Rightarrow> \<not> email_dom_char c)"

text \<open>
  \<open>lead_in\<close> says of the text between the scheme and an address that no match of
  \<open>EMAIL_REGEX\<close> starts in it: it has no \<open>@\<close> (64) and no double quote (34) and
  does not end with a character of the local part.
\<close>

definition lead_in :: "str \<Rightarrow> bool" where
  "lead_in junk =
     (list_all (\<lambda>c. c \<noteq> 64 \<and> c \<noteq> 34) junk
      \<and> (case last_opt junk of None \<Rightarrow> True | Some c \<Rightarrow> \<not> email_local_char c))"

text \<open>
  A document with one anchor, to \<open>see MAILTO:?to=Jane.Doe@Example.com&subject=Hi\<close>,
  whose text \<open>Click here\<close> has no cue, and a runtime whose parser returns it for every
  text.
\<close>

definition doc_plain_link :: document where
  "doc_plain_link =
     \<lparr>doc_elements =
        [\<lparr>el_name = u ''a'',
          el_attrs = [(u ''href'', u ''see MAILTO:?to=Jane.Doe@Example.com&subject=Hi'')],
          el_text = u ''Click here'', el_parent_text = Some (u ''Click here'')\<rparr>],
      doc_text = u ''Click here''\<rparr>"

definition rt_plain_link :: runtime where
  "rt_plain_link = rt_sample\<lparr>soup := (\<lambda>html. doc_plain_link)\<rparr>"

text \<open>
  A document with one anchor, to \<open>mailto:first@one.co,then@two.co\<close>, whose text
  \<open>Click here\<close> has no cue, and a runtime whose parser returns it for every text.
\<close>

definition doc_two_addresses :: document where
  "doc_two_addresses =
     \<lparr>doc_elements =
        [\<lparr>el_name = u ''a'',
          el_attrs = [(u ''href'', u ''mailto:first@one.co,then@two.co'')],
          el_text = u ''Click here'', el_parent_text = Some (u ''Click here'')\<rparr>],
      doc_text = u ''Click here''\<rparr>"

definition rt_two_addresses :: runtime where
  "rt_two_addresses = rt_sample\<lparr>soup := (\<lambda>html. doc_two_addresses)\<rparr>"

section \<open>The cap on the listing\<close>

lemma messages_loop_cap:
  "0 < n \<Longrightarrow> seen < n \<Longrightarrow> messages_loop (Some n) seen ms = (ids, seen', r) \<Longrightarrow>
     int (length ids) + seen \<le> n \<and> (r = None \<longrightarrow> seen' = seen + int (length ids) \<and> seen' < n)"
proof (induction ms arbitrary: seen ids seen' r)
  case Nil
  then show ?case by simp
next
  case (Cons m ms)
  show ?case
  proof (cases m)
    case None
    with Cons.prems show ?thesis by simp
  next
    case (Some i)
    show ?thesis
    proof (cases "cap_reached (Some n) (seen + 1)")
      case True
      with Some Cons.prems show ?thesis by auto
    next
      case False
      then have lt: "seen + 1 < n" using Cons.prems(1) by (simp add: cap_reached_def)
      obtain ids0 s0 r0 where rec: "messages_loop (Some n) (seen + 1) ms = (ids0, s0, r0)"
        by (cases "messages_loop (Some n) (seen + 1) ms") auto
      from Cons.IH[OF Cons.prems(1) lt rec]
      have ih: "int (length ids0) + (seen + 1) \<le> n"
        "r0 = None \<longrightarrow> s0 = seen + 1 + int (length ids0) \<and> s0 < n" by auto
      from Cons.prems(3) Some False rec have "ids = i # ids0" "seen' = s0" "r = r0" by auto
      with ih show ?thesis by auto
    qed
  qed
qed

lemma listing_within_cap:
  "0 < n \<Longrightarrow> seen < n \<Longrightarrow>
     int (length (fst (search_message_ids fuel svc (Some n) tok seen))) + seen \<le> n"
proof (induction fuel arbitrary: tok seen)
  case 0
  then show ?case by simp
next
  case (Suc fuel)
  show ?case
  proof (cases "list_messages svc tok")
    case (Inl e)
    with Suc.prems show ?thesis by simp
  next
    case (Inr resp)
    obtain ids s1 r where ml: "messages_loop (Some n) seen (case pg_messages resp of None \<Rightarrow> [] | Some ms \<Rightarrow> ms) = (ids, s1, r)"
      by (metis prod_cases3)
    note b = messages_loop_cap[OF Suc.prems ml]
    show ?thesis
    proof (cases r)
      case (Some e)
      with Inr ml b show ?thesis by simp
    next
      case None
      with b have s1: "s1 = seen + int (length ids)" "s1 < n" by auto
      show ?thesis
      proof (cases "pg_nextPageToken resp")
        case no_token: None
        with Inr ml None b show ?thesis by simp
      next
        case (Some t)
        show ?thesis
        proof (cases "t = []")
          case True
          with Inr ml None Some b show ?thesis by simp
        next
          case False
          from Suc.IH[OF Suc.prems(1) s1(2), of "Some t"]
          have "int (length (fst (search_message_ids fuel svc (Some n) (Some t) s1))) + s1 \<le> n" .
          with Inr ml None Some False s1 show ?thesis
            by (simp add: split_beta)
        qed
      qed
    qed
  qed
qed

lemma messages_loop_zero: "messages_loop (Some 0) seen ms = messages_loop None seen ms"
  by (induction ms arbitrary: seen) (auto simp: cap_reached_def split: option.splits)

lemma search_zero: "search_message_ids fuel svc (Some 0) tok seen = search_message_ids fuel svc None tok seen"
  by (induction fuel arbitrary: tok seen) (auto simp: messages_loop_zero split: sum.splits option.splits prod.splits)

lemma messages_loop_uncapped: "messages_loop (Some 0) seen (map Some ids) = (ids, seen + int (length ids), None)"
  by (induction ids arbitrary: seen) (auto simp: cap_reached_def)

lemma one_page_all: "search_message_ids (Suc fuel) (one_page ids) (Some 0) None 0 = (ids, Returned)"
  by (simp add: one_page_def messages_loop_uncapped)

text \<open>
  C10. With a positive cap \<open>n\<close> the listing yields at most \<open>n\<close> ids, whatever the
  service answers and however long the loop runs. With the cap 0 the listing is the
  listing without a cap: a page of any number of ids is yielded whole.
\<close>

theorem search_message_ids_cap:
  "(0 < n \<longrightarrow> length (fst (search_message_ids fuel svc (Some n) None 0)) \<le> nat n)
   \<and> search_message_ids fuel svc (Some 0) None 0 = search_message_ids fuel svc None None 0
   \<and> search_message_ids (Suc fuel) (one_page ids) (Some 0) None 0 = (ids, Returned)"
  using listing_within_cap[of n 0 fuel svc None] search_zero[of fuel svc None 0] one_page_all[of fuel ids]
  by auto

theorem search_message_ids_cap_witness:
  "length (fst (search_message_ids 2 (one_page [u ''m1'', u ''m2'', u ''m3'']) (Some 2) None 0)) \<le> nat 2
   \<and> search_message_ids 2 (one_page [u ''m1'', u ''m2'', u ''m3'']) (Some 2) None 0 = ([u ''m1'', u ''m2''], Returned)
   \<and> search_message_ids 2 (one_page [u ''m1'', u ''m2'', u ''m3'']) (Some 0) None 0 = ([u ''m1'', u ''m2'', u ''m3''], Returned)"
  using search_message_ids_cap[of 2 2 "one_page [u ''m1'', u ''m2'', u ''m3'']" "[u ''m1'', u ''m2'', u ''m3'']"]
  by (simp add: one_page_def cap_reached_def u_def numeral_2_eq_2)

section \<open>Evaluating the examples\<close>

lemmas text_defs =
  u_def is_ascii_digit_def is_ascii_alpha_def is_digit_def is_word_def is_space_def
  ascii_lower_def lower_def strip_def ci_eq_def

lemmas order_defs =
  word_opt_def boundary_def digit_run_def prev_at_def ORDER_RE_match_def
  order_hash_match_def valid_order_numbers_from_text_def extract_orders_def order_fullmatch_def

lemmas email_defs =
  email_tld_char_def email_dom_char_def email_local_char_def EMAIL_match_def SEND_MAIL_CUES_def
  has_cue_def found_email_def mailto_email_def attr_emails_def neighborhood_def
  anchors_with_href_def anchors_and_buttons_def cue_link_emails_def cue_button_emails_def
  mailto_fallback_emails_def extract_emails_from_html_def extract_emails_from_text_def
  filter_buyer_emails_def message_emails_def

lemmas decode_defs =
  utf8_encode_char_def b64_value_def emit_def urlsafe_b64decode_def is_cont_def
  decode_part_data_def yield_own_def

lemmas message_defs =
  html_of_def plain_of_def payload_of_def header_or_empty_def candidates_def

lemmas sample_defs =
  doc_jane_def doc_etsy_def rt_sample_def shipped_headers_def msg_jane_def msg_etsy_def
  svc_sample_def default_config_def

lemma candidates_jane:
  "candidates rt_sample (payload_of msg_jane) = Inr ([u ''12345678''], [u ''jane@example.com''])"
  by (simp add: text_defs order_defs email_defs decode_defs message_defs sample_defs Let_def)

lemma candidates_etsy:
  "candidates rt_sample (payload_of msg_etsy) = Inr ([u ''12345678''], [u ''support@etsy.com''])"
  by (simp add: text_defs order_defs email_defs decode_defs message_defs sample_defs Let_def)

lemma get_message_sample:
  "get_message svc_sample (u ''m1'') = Inr msg_jane"
  "get_message svc_sample (u ''m2'') = Inr msg_etsy"
  by (simp_all add: svc_sample_def u_def)

lemma u_not_empty: "u (c # s) \<noteq> []"
  by (simp add: u_def)

lemma clean_jane:
  "order_fullmatch rt_sample (u ''12345678'')"
  "filter_buyer_emails cfg [u ''jane@example.com''] = [u ''jane@example.com'']"
  by (simp_all add: text_defs order_fullmatch_def filter_buyer_emails_def rt_sample_def
        suffix_to_prefix)

lemma clean_etsy:
  "filter_buyer_emails default_config [u ''support@etsy.com''] = []"
  by (simp add: text_defs filter_buyer_emails_def default_config_def suffix_to_prefix)

lemma process_jane_first:
  "map pair_of (rows (process_message rt_sample default_config svc_sample initial_state (u ''m1'')))
     = [(u ''12345678'', u ''jane@example.com'')]"
  "seen_pairs (process_message rt_sample default_config svc_sample initial_state (u ''m1''))
     = {(u ''12345678'', u ''jane@example.com'')}"
  by (simp_all add: process_message_def get_message_sample candidates_jane clean_jane add_pairs_def
        add_pair_def initial_state_def pair_of_def u_not_empty)

lemma sample_run:
  "map pair_of (rows (foldl (process_message rt_sample default_config svc_sample) initial_state
      [u ''m1'', u ''m1'', u ''m2''])) = [(u ''12345678'', u ''jane@example.com'')]"
  by (simp add: process_message_def get_message_sample candidates_jane candidates_etsy
        clean_jane clean_etsy add_pairs_def add_pair_def initial_state_def pair_of_def u_not_empty)

lemma sample_listing:
  "search_message_ids 1 svc_sample (MAX_MESSAGES default_config) None 0
     = ([u ''m1'', u ''m1'', u ''m2''], Returned)"
  by (simp add: svc_sample_def default_config_def cap_reached_def)

section \<open>The pairs of a run are unique\<close>

lemma add_pair_inv: "dedup_inv st \<Longrightarrow> dedup_inv (add_pair i d s st a b)"
  by (auto simp: dedup_inv_def add_pair_def pair_of_def)

lemma foldl_inv:
  assumes "\<And>s x. P s \<Longrightarrow> P (f s x)" and "P s0"
  shows "P (foldl f s0 xs)"
  using assms(2) by (induction xs arbitrary: s0) (auto intro: assms(1))

lemma add_pairs_inv: "dedup_inv st \<Longrightarrow> dedup_inv (add_pairs i d s os es st)"
  unfolding add_pairs_def
  by (rule foldl_inv, rule foldl_inv) (auto intro: add_pair_inv)

lemma dedup_inv_processed: "dedup_inv (st\<lparr>processed := n\<rparr>) = dedup_inv st"
  by (simp add: dedup_inv_def)

lemma process_message_inv: "dedup_inv st \<Longrightarrow> dedup_inv (process_message rt cfg svc st i)"
  by (auto simp: process_message_def Let_def dedup_inv_processed add_pairs_inv split: sum.splits prod.splits)

lemma run_inv: "dedup_inv (foldl (process_message rt cfg svc) initial_state ids)"
proof (rule foldl_inv[where P = dedup_inv])
  show "dedup_inv initial_state" by (simp add: dedup_inv_def initial_state_def)
qed (rule process_message_inv)

lemma add_pair_seen: "(a, b) \<in> seen_pairs st \<Longrightarrow> add_pair i d s st a b = st"
  by (simp add: add_pair_def)

lemma add_pair_new: "a \<noteq> [] \<Longrightarrow> b \<noteq> [] \<Longrightarrow> (a, b) \<notin> seen_pairs st \<Longrightarrow>
   map pair_of (rows (add_pair i d s st a b)) = map pair_of (rows st) @ [(a, b)]
   \<and> (a, b) \<in> seen_pairs (add_pair i d s st a b)"
  by (simp add: add_pair_def pair_of_def)

text \<open>
  C4. After a run over any sequence of message ids, no two rows have the same pair
  (order_number, buyer_email), and the set \<open>seen_pairs\<close> is the set of the pairs of
  the rows. A pair that is in \<open>seen_pairs\<close> leaves the state as it is; a pair, of a
  non-empty order and a non-empty email, that is not in it is appended and recorded.
\<close>

theorem rows_globally_unique:
  "distinct (map pair_of (rows (foldl (process_message rt cfg svc) initial_state ids)))
   \<and> seen_pairs (foldl (process_message rt cfg svc) initial_state ids)
       = set (map pair_of (rows (foldl (process_message rt cfg svc) initial_state ids)))
   \<and> ((a, b) \<in> seen_pairs st \<longrightarrow> add_pair i d s st a b = st)
   \<and> (a \<noteq> [] \<and> b \<noteq> [] \<and> (a, b) \<notin> seen_pairs st \<longrightarrow>
        map pair_of (rows (add_pair i d s st a b)) = map pair_of (rows st) @ [(a, b)]
        \<and> (a, b) \<in> seen_pairs (add_pair i d s st a b))"
  using run_inv[of rt cfg svc ids] add_pair_seen[of a b st i d s] add_pair_new[of a b st i d s]
  unfolding dedup_inv_def by blast

theorem rows_globally_unique_witness:
  "map pair_of (rows (foldl (process_message rt_sample default_config svc_sample) initial_state
      [u ''m1'', u ''m1'', u ''m2''])) = [(u ''12345678'', u ''jane@example.com'')]
   \<and> distinct (map pair_of (rows (foldl (process_message rt_sample default_config svc_sample)
        initial_state [u ''m1'', u ''m1'', u ''m2''])))
   \<and> add_pair (u ''m1'') [] [] (initial_state\<lparr>seen_pairs := {(u ''12345678'', u ''jane@example.com'')}\<rparr>)
        (u ''12345678'') (u ''jane@example.com'')
      = initial_state\<lparr>seen_pairs := {(u ''12345678'', u ''jane@example.com'')}\<rparr>
   \<and> map pair_of (rows (add_pair (u ''m1'') [] [] initial_state (u ''12345678'') (u ''jane@example.com'')))
      = [(u ''12345678'', u ''jane@example.com'')]"
  using rows_globally_unique[of rt_sample default_config svc_sample "[u ''m1'', u ''m1'', u ''m2'']"
      "u ''12345678''" "u ''jane@example.com''" "initial_state\<lparr>seen_pairs := {(u ''12345678'', u ''jane@example.com'')}\<rparr>"
      "u ''m1''" "[]" "[]"]
    rows_globally_unique[of rt_sample default_config svc_sample "[u ''m1'', u ''m1'', u ''m2'']"
      "u ''12345678''" "u ''jane@example.com''" "initial_state"
      "u ''m1''" "[]" "[]"]
    sample_run
  by (simp add: initial_state_def u_def)

section \<open>The plain text is a fallback\<close>

lemma message_emails_html:
  "extract_emails_from_html rt html \<noteq> [] \<Longrightarrow>
     message_emails rt html plain = (extract_emails_from_html rt html, False)"
  by (simp add: message_emails_def)

lemma message_emails_plain:
  "extract_emails_from_html rt html = [] \<Longrightarrow>
     message_emails rt html plain = (extract_emails_from_text rt plain, True)"
  by (simp add: message_emails_def)

lemma candidates_emails:
  "iter_payload_parts p = Inr chunks \<Longrightarrow>
     map_sum id snd (candidates rt p)
       = Inr (fst (message_emails rt (html_of chunks) (plain_of chunks)))"
  by (simp add: candidates_def)

text \<open>
  C6. When the HTML of a message yields an email candidate, the candidates of the message
  are those of the HTML and the plain text is not consulted; the plain text is consulted
  exactly when the HTML yields none. The emails of a message's candidates are the first
  component of \<open>message_emails\<close> on its joined chunks.
\<close>

theorem plain_fallback_only_without_html_emails:
  "(extract_emails_from_html rt html \<noteq> [] \<longrightarrow>
      message_emails rt html plain = (extract_emails_from_html rt html, False))
   \<and> (extract_emails_from_html rt html = [] \<longrightarrow>
      message_emails rt html plain = (extract_emails_from_text rt plain, True))
   \<and> (iter_payload_parts p = Inr chunks \<longrightarrow>
      map_sum id snd (candidates rt p)
        = Inr (fst (message_emails rt (html_of chunks) (plain_of chunks))))"
  using message_emails_html[of rt html plain] message_emails_plain[of rt html plain]
    candidates_emails[of p chunks rt]
  by blast

lemma html_emails_jane: "extract_emails_from_html rt_sample (u ''<a>'') = [u ''jane@example.com'']"
  by (simp add: text_defs email_defs sample_defs Let_def)

lemma html_emails_none: "extract_emails_from_html rt_sample (u ''<p>'') = []"
  by (simp add: text_defs email_defs sample_defs Let_def)

lemma text_emails_bob: "extract_emails_from_text rt_sample (u ''Bob@x.org'') = [u ''bob@x.org'']"
  by (simp add: text_defs email_defs sample_defs Let_def)

lemma chunks_jane:
  "iter_payload_parts (payload_of msg_jane) = Inr [(u ''text/html'', u ''<a>'')]"
  by (simp add: text_defs decode_defs message_defs sample_defs)

theorem plain_fallback_only_without_html_emails_witness:
  "message_emails rt_sample (u ''<a>'') (u ''Bob@x.org'') = ([u ''jane@example.com''], False)
   \<and> message_emails rt_sample (u ''<p>'') (u ''Bob@x.org'') = ([u ''bob@x.org''], True)
   \<and> map_sum id snd (candidates rt_sample (payload_of msg_jane))
       = Inr (fst (message_emails rt_sample (html_of [(u ''text/html'', u ''<a>'')])
                     (plain_of [(u ''text/html'', u ''<a>'')])))"
  using plain_fallback_only_without_html_emails[of rt_sample "u ''<a>''" "u ''Bob@x.org''"
      "payload_of msg_jane" "[(u ''text/html'', u ''<a>'')]"]
    plain_fallback_only_without_html_emails[of rt_sample "u ''<p>''" "u ''Bob@x.org''"
      "payload_of msg_jane" "[(u ''text/html'', u ''<a>'')]"]
    html_emails_jane html_emails_none text_emails_bob chunks_jane
  by simp

section \<open>The excluded domain\<close>

lemma filter_buyer_emails_excluded:
  "EXCLUDE_ETSY_DOMAIN cfg \<Longrightarrow> e \<in> set (filter_buyer_emails cfg es) \<Longrightarrow>
     \<not> suffix (u ''@etsy.com'') e"
  by (auto simp: filter_buyer_emails_def)

lemma filter_buyer_emails_all_excluded:
  "EXCLUDE_ETSY_DOMAIN cfg \<Longrightarrow> list_all (suffix (u ''@etsy.com'')) es \<Longrightarrow>
     filter_buyer_emails cfg es = []"
  by (auto simp: filter_buyer_emails_def list_all_iff filter_empty_conv)

lemma add_pair_no_etsy:
  "no_etsy st \<Longrightarrow> \<not> suffix (u ''@etsy.com'') e \<Longrightarrow> no_etsy (add_pair i d s st a e)"
  by (simp add: no_etsy_def add_pair_def)

lemma inner_no_etsy:
  "no_etsy st \<Longrightarrow> \<forall>e \<in> set es. \<not> suffix (u ''@etsy.com'') e \<Longrightarrow>
     no_etsy (foldl (\<lambda>s2 em. add_pair i d s s2 a em) st es)"
  by (induction es arbitrary: st) (auto intro: add_pair_no_etsy)

lemma add_pairs_no_etsy:
  "no_etsy st \<Longrightarrow> \<forall>e \<in> set es. \<not> suffix (u ''@etsy.com'') e \<Longrightarrow>
     no_etsy (add_pairs i d s os es st)"
  unfolding add_pairs_def
  by (induction os arbitrary: st) (auto intro: inner_no_etsy)

lemma add_pairs_no_emails: "add_pairs i d s os [] st = st"
  unfolding add_pairs_def by (induction os) auto

lemma no_etsy_processed: "no_etsy (st\<lparr>processed := n\<rparr>) = no_etsy st"
  by (simp add: no_etsy_def)

lemma process_message_no_etsy:
  "EXCLUDE_ETSY_DOMAIN cfg \<Longrightarrow> no_etsy st \<Longrightarrow> no_etsy (process_message rt cfg svc st i)"
  by (auto simp: process_message_def Let_def no_etsy_processed
        intro!: add_pairs_no_etsy dest: filter_buyer_emails_excluded
        split: sum.splits prod.splits)

lemma run_no_etsy:
  "EXCLUDE_ETSY_DOMAIN cfg \<Longrightarrow> no_etsy st \<Longrightarrow> no_etsy (foldl (process_message rt cfg svc) st ids)"
  by (induction ids arbitrary: st) (auto intro: process_message_no_etsy)

lemma only_excluded_no_rows:
  "EXCLUDE_ETSY_DOMAIN cfg \<Longrightarrow> get_message svc i = Inr msg \<Longrightarrow>
   candidates rt (payload_of msg) = Inr (orders, emails) \<Longrightarrow>
   list_all (suffix (u ''@etsy.com'')) emails \<Longrightarrow>
     rows (process_message rt cfg svc st i) = rows st"
  by (simp add: process_message_def Let_def filter_buyer_emails_all_excluded add_pairs_no_emails)

text \<open>
  C7. With the exclusion enabled, no row of a run has a buyer_email that ends with
  \<open>@etsy.com\<close>; and a message all of whose email candidates end with \<open>@etsy.com\<close>
  adds no row.
\<close>

theorem excluded_domain_never_in_rows:
  assumes "EXCLUDE_ETSY_DOMAIN cfg"
  shows "list_all (\<lambda>r. \<not> suffix (u ''@etsy.com'') (buyer_email r))
           (rows (foldl (process_message rt cfg svc) initial_state ids))
         \<and> (get_message svc i = Inr msg \<and> candidates rt (payload_of msg) = Inr (orders, emails)
              \<and> list_all (suffix (u ''@etsy.com'')) emails
            \<longrightarrow> rows (process_message rt cfg svc st i) = rows st)"
proof -
  have "no_etsy initial_state" by (simp add: no_etsy_def initial_state_def)
  from run_no_etsy[OF assms this]
  show ?thesis using only_excluded_no_rows[OF assms] by (auto simp: no_etsy_def)
qed

theorem excluded_domain_never_in_rows_witness:
  "EXCLUDE_ETSY_DOMAIN default_config
   \<and> candidates rt_sample (payload_of msg_etsy) = Inr ([u ''12345678''], [u ''support@etsy.com''])
   \<and> list_all (\<lambda>r. \<not> suffix (u ''@etsy.com'') (buyer_email r))
        (rows (foldl (process_message rt_sample default_config svc_sample) initial_state
           [u ''m1'', u ''m1'', u ''m2'']))
   \<and> rows (process_message rt_sample default_config svc_sample initial_state (u ''m2'')) = []"
proof -
  have e: "EXCLUDE_ETSY_DOMAIN default_config" by (simp add: default_config_def)
  have l: "list_all (suffix (u ''@etsy.com'')) [u ''support@etsy.com'']"
    by (simp add: u_def suffix_to_prefix)
  from excluded_domain_never_in_rows[OF e, of rt_sample svc_sample "[u ''m1'', u ''m1'', u ''m2'']"
      "u ''m2''" msg_etsy "[u ''12345678'']" "[u ''support@etsy.com'']" initial_state]
    get_message_sample(2) candidates_etsy l e
  show ?thesis by (simp add: initial_state_def)
qed

section \<open>The output file\<close>

lemma listing_handler_exits: "listing_handler rs w = (Some (SystemExit 2), w)"
  by (simp add: listing_handler_def then_do_def sys_exit_def)

text \<open>
  C1 (what the code does). No run of \<open>main\<close> writes the output file: a run that ends,
  with whatever result of the listing, leaves \<open>csv_file\<close> as it found it, because the
  only statement that writes the file stands behind \<open>sys.exit(2)\<close> in the handler of
  the listing error. The last line printed still reports the number of rows as written.
\<close>

theorem main_never_writes_csv:
  "main fuel rt cfg conn w = Some (r, w') \<Longrightarrow> csv_file w' = csv_file w"
  by (auto simp: main_def listing_handler_exits sys_exit_def print_summary_def Let_def
        split: sum.splits prod.splits ending.splits if_splits)

theorem main_never_writes_csv_witness:
  "main 1 rt_sample default_config (Inr svc_sample) \<lparr>csv_file = None, summary = None\<rparr>
     = Some (None, \<lparr>csv_file = None, summary = Some 1\<rparr>)
   \<and> csv_table (rows (foldl (process_message rt_sample default_config svc_sample) initial_state
        [u ''m1'', u ''m1'', u ''m2'']))
     = [[u ''order_number'', u ''buyer_email''], [u ''12345678'', u ''jane@example.com'']]"
proof -
  let ?st = "foldl (process_message rt_sample default_config svc_sample) initial_state
        [u ''m1'', u ''m1'', u ''m2'']"
  have len: "length (rows ?st) = 1"
    using arg_cong[OF sample_run, of length] by simp
  have run: "main 1 rt_sample default_config (Inr svc_sample) \<lparr>csv_file = None, summary = None\<rparr>
     = Some (None, \<lparr>csv_file = None, summary = Some 1\<rparr>)"
    using sample_listing len by (simp add: main_def print_summary_def svc_sample_def)
  obtain r where r: "rows ?st = [r]" using len by (cases "rows ?st") auto
  with sample_run have "pair_of r = (u ''12345678'', u ''jane@example.com'')" by simp
  then have tab: "csv_table (rows ?st)
     = [[u ''order_number'', u ''buyer_email''], [u ''12345678'', u ''jane@example.com'']]"
    using r by (simp add: csv_table_def pair_of_def u_not_empty)
  from main_never_writes_csv[OF run] run tab show ?thesis by simp
qed

section \<open>The payload flattener\<close>

text \<open>
  C2 (what the code does). A part that is a leaf with body data is yielded twice: once
  by the loop over the parts of its parent and once more by the recursive call on the
  part itself, whose branch for a payload without parts yields it again. So the pairs of
  a payload are not one for each leaf with body data.
\<close>

theorem iter_payload_parts_yields_leaf_twice:
  assumes "d \<noteq> []" and "decode_part_data d = Inr content"
  shows "iter_payload_parts
           (Payload mime0 data0 (Some [Payload (Some mime) (Some d) None hs]) hs0)
         = Inr [(mime, content), (mime, content)]"
  using assms by (simp add: yield_own_def)

theorem iter_payload_parts_yields_leaf_twice_witness:
  "u ''QQ=='' \<noteq> [] \<and> decode_part_data (u ''QQ=='') = Inr (u ''A'')
   \<and> iter_payload_parts
       (Payload (Some (u ''multipart/alternative'')) None
          (Some [Payload (Some (u ''text/html'')) (Some (u ''QQ=='')) None None]) None)
     = Inr [(u ''text/html'', u ''A''), (u ''text/html'', u ''A'')]"
proof -
  have n: "u ''QQ=='' \<noteq> []" by (simp add: u_def)
  have d: "decode_part_data (u ''QQ=='') = Inr (u ''A'')" by (simp add: text_defs decode_defs)
  from iter_payload_parts_yields_leaf_twice[OF n d, of "Some (u ''multipart/alternative'')" None
      "u ''text/html''" None None] n d
  show ?thesis by simp
qed

section \<open>Decoding a body that is not well-formed\<close>

























section \<open>The scans of the order extractor\<close>

lemma digit_is_word: "is_digit rt c \<Longrightarrow> is_word rt c"
  by (simp add: is_word_def)

lemma digit_run_le: "digit_run rt t \<le> length t"
  by (simp add: digit_run_def length_takeWhile_le)

lemma digit_run_nth: "i < digit_run rt t \<Longrightarrow> is_digit rt (t ! i)"
proof -
  assume i: "i < digit_run rt t"
  then have "takeWhile (is_digit rt) t ! i = t ! i"
    unfolding digit_run_def by (rule takeWhile_nth)
  moreover have "takeWhile (is_digit rt) t ! i \<in> set (takeWhile (is_digit rt) t)"
    using i unfolding digit_run_def by (rule nth_mem)
  ultimately show ?thesis using set_takeWhileD by fastforce
qed

lemma take_digit_run: "k \<le> digit_run rt t \<Longrightarrow> list_all (is_digit rt) (take k t)"
  by (simp add: list_all_length digit_run_nth)

lemma digit_run_stop: "i < length t \<Longrightarrow> \<not> is_digit rt (t ! i) \<Longrightarrow> digit_run rt t \<le> i"
  using digit_run_nth[of i rt t] by (meson not_le_imp_less)

lemma find_SomeD: "find P xs = Some x \<Longrightarrow> P x \<and> x \<in> set xs"
  by (induction xs) (auto split: if_splits)

lemma ORDER_RE_match_Some:
  assumes "ORDER_RE_match rt prev rest = Some k"
  shows "6 \<le> k" "k \<le> 14" "k \<le> digit_run rt rest" "boundary rt prev rest"
    "boundary rt (prev_at prev rest k) (drop k rest)"
proof -
  from assms have b: "boundary rt prev rest"
    and f: "find (\<lambda>k. boundary rt (prev_at prev rest k) (drop k rest))
             (rev [6 ..< Suc (min 14 (digit_run rt rest))]) = Some k"
    by (auto simp: ORDER_RE_match_def split: if_splits)
  from find_SomeD[OF f] have "k \<in> set (rev [6 ..< Suc (min 14 (digit_run rt rest))])"
    and p: "boundary rt (prev_at prev rest k) (drop k rest)"
    by blast+
  then have "6 \<le> k \<and> k < Suc (min 14 (digit_run rt rest))"
    by (simp del: upt_Suc)
  then show "6 \<le> k" "k \<le> 14" "k \<le> digit_run rt rest" by auto
  show "boundary rt prev rest" by (rule b)
  show "boundary rt (prev_at prev rest k) (drop k rest)" by (rule p)
qed

lemma ORDER_RE_match_fullmatch:
  assumes "ORDER_RE_match rt prev rest = Some k"
  shows "order_fullmatch rt (take k rest)"
proof -
  note m = ORDER_RE_match_Some[OF assms]
  have "k \<le> length rest" using m(3) digit_run_le[of rt rest] by simp
  with m take_digit_run[OF m(3)] show ?thesis by (simp add: order_fullmatch_def)
qed

lemma ORDER_RE_finditer_fullmatch:
  "list_all (order_fullmatch rt) (ORDER_RE_finditer rt prev t)"
  by (induction rt prev t rule: ORDER_RE_finditer.induct)
     (auto simp: ORDER_RE_match_fullmatch split: option.splits)

lemma valid_order_numbers_fullmatch:
  "list_all (order_fullmatch rt) (valid_order_numbers_from_text rt t)"
  using ORDER_RE_finditer_fullmatch[of rt None t]
  by (simp add: valid_order_numbers_from_text_def list_all_iff)

lemma order_hash_match_fullmatch:
  assumes "order_hash_match rt rest = Some (g, e)"
  shows "order_fullmatch rt g"
proof -
  from assms obtain r3 where g: "g = take (min 14 (digit_run rt r3)) r3" and n: "6 \<le> digit_run rt r3"
    by (auto simp: order_hash_match_def Let_def split: if_splits list.splits)
  have "list_all (is_digit rt) g" unfolding g by (rule take_digit_run) simp
  moreover have "length g = min 14 (digit_run rt r3)"
    unfolding g using digit_run_le[of rt r3] by simp
  ultimately show ?thesis using n by (simp add: order_fullmatch_def)
qed

lemma order_hash_finditer_fullmatch:
  "list_all (order_fullmatch rt) (order_hash_finditer rt t)"
  by (induction rt t rule: order_hash_finditer.induct)
     (auto simp: order_hash_match_fullmatch split: option.splits)

lemma extract_orders_fullmatch:
  "list_all (order_fullmatch rt) (extract_orders rt subject html plain)"
  using valid_order_numbers_fullmatch[of rt subject] valid_order_numbers_fullmatch[of rt plain]
    valid_order_numbers_fullmatch[of rt "doc_text (soup rt html)"]
    order_hash_finditer_fullmatch[of rt subject]
  by (auto simp: extract_orders_def list_all_iff)

lemma fullmatch_nonempty: "order_fullmatch rt tok \<Longrightarrow> tok \<noteq> []"
  by (auto simp: order_fullmatch_def)

lemma digit_run_token:
  assumes "list_all (is_digit rt) tok" and "\<not> word_opt rt (head_opt post)"
  shows "digit_run rt (tok @ post) = length tok"
proof -
  have "takeWhile (is_digit rt) post = []"
    using assms(2) by (cases post) (auto simp: head_opt_def word_opt_def digit_is_word)
  with assms(1) show ?thesis
    by (simp add: digit_run_def takeWhile_append2 list_all_iff)
qed

lemma ORDER_RE_match_token:
  assumes tok: "order_fullmatch rt tok" and l: "\<not> word_opt rt prev"
    and r: "\<not> word_opt rt (head_opt post)"
  shows "ORDER_RE_match rt prev (tok @ post) = Some (length tok)"
proof -
  let ?n = "length tok"
  from tok have d: "list_all (is_digit rt) tok" and n: "6 \<le> ?n" "?n \<le> 14"
    by (auto simp: order_fullmatch_def)
  then obtain c cs where c: "tok = c # cs" by (cases tok) auto
  have hd: "is_word rt c" using d c by (simp add: digit_is_word)
  have b1: "boundary rt prev (tok @ post)"
    using l hd c by (simp add: boundary_def word_opt_def)
  have run: "min 14 (digit_run rt (tok @ post)) = ?n"
    using digit_run_token[OF d r] n by simp
  have lastw: "is_word rt ((tok @ post) ! (?n - 1))"
  proof -
    have "?n - 1 < ?n" using n by simp
    then have "(tok @ post) ! (?n - 1) = tok ! (?n - 1)" by (simp only: nth_append_left)
    moreover have "is_digit rt (tok ! (?n - 1))" using d n by (simp add: list_all_length)
    ultimately show ?thesis by (simp add: digit_is_word)
  qed
  have b2: "boundary rt (prev_at prev (tok @ post) ?n) (drop ?n (tok @ post))"
    using lastw r n by (cases post) (auto simp: boundary_def prev_at_def word_opt_def head_opt_def)
  have "rev [6 ..< Suc ?n] = ?n # rev [6 ..< ?n]" using n by simp
  then have "find (\<lambda>k. boundary rt (prev_at prev (tok @ post) k) (drop k (tok @ post)))
               (rev [6 ..< Suc ?n]) = Some ?n"
    using b2 by simp
  with b1 run show ?thesis by (simp add: ORDER_RE_match_def del: upt_Suc)
qed

lemma match_before_token:
  assumes m: "ORDER_RE_match rt prev (pre @ rest) = Some k"
    and pre: "pre \<noteq> []" and nw: "\<not> is_word rt (last pre)"
  shows "k < length pre"
proof -
  let ?i = "length pre - 1"
  have i: "?i < length (pre @ rest)" using pre by (cases pre) auto
  have "(pre @ rest) ! ?i = last pre" using pre by (simp add: nth_append last_conv_nth)
  with nw have "\<not> is_digit rt ((pre @ rest) ! ?i)" using digit_is_word by auto
  from digit_run_stop[OF i this] ORDER_RE_match_Some(1,3)[OF m] pre
  show ?thesis by (cases pre) auto
qed

lemma ORDER_RE_finditer_token:
  assumes tok: "order_fullmatch rt tok" and r: "\<not> word_opt rt (head_opt post)"
  shows "\<not> word_opt rt (if pre = [] then prev else Some (last pre)) \<Longrightarrow>
           tok \<in> set (ORDER_RE_finditer rt prev (pre @ tok @ post))"
proof (induction pre arbitrary: prev rule: length_induct)
  case (1 pre)
  show ?case
  proof (cases pre)
    case Nil
    from tok obtain c cs where c: "tok = c # cs" using fullmatch_nonempty by (cases tok) auto
    from 1(2) Nil have l: "\<not> word_opt rt prev" by simp
    have "ORDER_RE_match rt prev ((c # cs) @ post) = Some (length (c # cs))"
      using ORDER_RE_match_token[OF tok l r] c by simp
    then show ?thesis using Nil c by simp
  next
    case (Cons c pre')
    have nw: "\<not> is_word rt (last pre)" using 1(2) Cons by (simp add: word_opt_def)
    show ?thesis
    proof (cases "ORDER_RE_match rt prev (pre @ tok @ post)")
      case None
      have ctx: "\<not> word_opt rt (if pre' = [] then Some c else Some (last pre'))"
        using nw Cons by (auto simp: word_opt_def)
      have "length pre' < length pre" using Cons by simp
      with 1(1) ctx have "tok \<in> set (ORDER_RE_finditer rt (Some c) (pre' @ tok @ post))" by blast
      with None Cons show ?thesis by simp
    next
      case (Some k)
      have pne: "pre \<noteq> []" using Cons by simp
      from match_before_token[OF Some pne nw] have k: "k < length pre" .
      have k6: "6 \<le> k" using ORDER_RE_match_Some(1)[OF Some] .
      let ?p = "drop (k - 1) pre'"
      have pk: "k - 1 < length pre'" using k k6 Cons by simp
      then have ne: "?p \<noteq> []" by simp
      have "pre' \<noteq> []" using pk by auto
      then have lastp: "last ?p = last pre" using pk Cons by (simp add: last_drop)
      have ctx: "\<not> word_opt rt (if ?p = [] then Some ((pre @ tok @ post) ! (k - 1)) else Some (last ?p))"
        using ne lastp nw by (simp add: word_opt_def)
      have "length ?p < length pre" using Cons by simp
      with 1(1) ctx have "tok \<in> set (ORDER_RE_finditer rt (Some ((pre @ tok @ post) ! (k - 1))) (?p @ tok @ post))"
        by blast
      moreover have "drop (k - 1) (pre' @ tok @ post) = ?p @ tok @ post" using pk by simp
      ultimately show ?thesis using Some Cons by simp
    qed
  qed
qed

lemma valid_order_numbers_token:
  assumes "standalone rt pre tok post"
  shows "tok \<in> set (valid_order_numbers_from_text rt (pre @ tok @ post))"
proof -
  from assms have tok: "order_fullmatch rt tok" and l: "\<not> word_opt rt (last_opt pre)"
    and r: "\<not> word_opt rt (head_opt post)" by (auto simp: standalone_def)
  have "\<not> word_opt rt (if pre = [] then None else Some (last pre))"
    using l by (simp add: last_opt_def)
  from ORDER_RE_finditer_token[OF tok r this]
  show ?thesis using fullmatch_nonempty[OF tok] by (simp add: valid_order_numbers_from_text_def)
qed

lemma ORDER_RE_match_standalone:
  assumes "ORDER_RE_match rt prev rest = Some k"
  shows "\<not> word_opt rt prev" "\<not> word_opt rt (head_opt (drop k rest))" "k \<le> length rest"
proof -
  note m = ORDER_RE_match_Some[OF assms]
  show kl: "k \<le> length rest" using m(3) digit_run_le[of rt rest] by simp
  from m obtain c cs where c: "rest = c # cs" using kl by (cases rest) auto
  have "is_digit rt (rest ! 0)" using m by (intro digit_run_nth) simp
  then have "is_word rt c" using c by (simp add: digit_is_word)
  with m(4) c show "\<not> word_opt rt prev" by (simp add: boundary_def word_opt_def)
  have "is_digit rt (rest ! (k - 1))" using m by (intro digit_run_nth) simp
  then have "word_opt rt (prev_at prev rest k)" using m(1)
    by (simp add: prev_at_def word_opt_def digit_is_word)
  with m(5) show "\<not> word_opt rt (head_opt (drop k rest))"
    by (simp add: boundary_def head_opt_def)
qed

lemma ORDER_RE_finditer_sound:
  "m \<in> set (ORDER_RE_finditer rt prev rest) \<Longrightarrow> prev = last_opt pre \<Longrightarrow>
     \<exists>p q. pre @ rest = p @ m @ q \<and> standalone rt p m q"
proof (induction rt prev rest arbitrary: pre rule: ORDER_RE_finditer.induct)
  case (1 rt prev)
  then show ?case by simp
next
  case (2 rt prev c cs)
  show ?case
  proof (cases "ORDER_RE_match rt prev (c # cs)")
    case None
    with 2(3) have "m \<in> set (ORDER_RE_finditer rt (Some c) cs)" by simp
    moreover have "Some c = last_opt (pre @ [c])" by (simp add: last_opt_def)
    ultimately obtain p q where "(pre @ [c]) @ cs = p @ m @ q" "standalone rt p m q"
      using 2(1)[OF None] by blast
    then show ?thesis by auto
  next
    case (Some k)
    note st = ORDER_RE_match_standalone[OF Some]
    have k6: "6 \<le> k" using ORDER_RE_match_Some(1)[OF Some] .
    have dr: "drop (k - 1) cs = drop k (c # cs)" using k6 by (cases k) auto
    from 2(3) Some consider "m = take k (c # cs)"
      | "m \<in> set (ORDER_RE_finditer rt (Some ((c # cs) ! (k - 1))) (drop (k - 1) cs))"
      by auto
    then show ?thesis
    proof cases
      case 1
      have "standalone rt pre m (drop k (c # cs))"
        using st 2(4) ORDER_RE_match_fullmatch[OF Some] 1 by (simp add: standalone_def)
      moreover have "pre @ c # cs = pre @ m @ drop k (c # cs)" using 1 by simp
      ultimately show ?thesis by blast
    next
      case 2
      have tk: "take k (c # cs) \<noteq> []" using k6 by auto
      have "last (take k (c # cs)) = (c # cs) ! (k - 1)"
        using st(3) k6 by (simp add: last_conv_nth tk min_def)
      then have "Some ((c # cs) ! (k - 1)) = last_opt (pre @ take k (c # cs))"
        using tk by (simp add: last_opt_def)
      with "2.IH"(2)[OF Some 2] obtain p q where
        "(pre @ take k (c # cs)) @ drop (k - 1) cs = p @ m @ q" "standalone rt p m q" by blast
      moreover have "(pre @ take k (c # cs)) @ drop (k - 1) cs = pre @ c # cs"
        using dr by simp
      ultimately show ?thesis by metis
    qed
  qed
qed

lemma valid_order_numbers_sound:
  assumes "m \<in> set (valid_order_numbers_from_text rt t)"
  shows "\<exists>p q. t = p @ m @ q \<and> standalone rt p m q"
proof -
  from assms have "m \<in> set (ORDER_RE_finditer rt None t)"
    by (auto simp: valid_order_numbers_from_text_def split: if_splits)
  from ORDER_RE_finditer_sound[OF this, of "[]"] show ?thesis by (simp add: last_opt_def)
qed

section \<open>The candidates of the order extractor\<close>

lemma extract_orders_token:
  assumes "standalone rt pre tok post"
    and "subject = pre @ tok @ post \<or> plain = pre @ tok @ post"
  shows "tok \<in> set (extract_orders rt subject html plain)"
proof -
  have ne: "pre @ tok @ post \<noteq> []"
    using assms(1) fullmatch_nonempty by (auto simp: standalone_def)
  from assms(2) show ?thesis
  proof
    assume s: "subject = pre @ tok @ post"
    with valid_order_numbers_token[OF assms(1)] ne show ?thesis
      by (simp add: extract_orders_def)
  next
    assume p: "plain = pre @ tok @ post"
    with valid_order_numbers_token[OF assms(1)] ne show ?thesis
      by (simp add: extract_orders_def)
  qed
qed

text \<open>
  C5. Every candidate of the order extractor is a string of 6 to 14 digits, so no run of
  fewer than 6 or more than 14 digits is a candidate; and every run of 6 to 14 digits
  that stands in the subject or in the plain text with no word character before and
  behind it is a candidate. The scan of a text with \<open>ORDER_RE\<close> returns such standalone
  tokens only.
\<close>

theorem order_candidates_are_standalone_runs:
  "list_all (\<lambda>m. list_all (is_digit rt) m \<and> 6 \<le> length m \<and> length m \<le> 14)
     (extract_orders rt subject html plain)
   \<and> (standalone rt pre tok post \<and> (subject = pre @ tok @ post \<or> plain = pre @ tok @ post)
        \<longrightarrow> tok \<in> set (extract_orders rt subject html plain))
   \<and> (m \<in> set (valid_order_numbers_from_text rt t)
        \<longrightarrow> (\<exists>p q. t = p @ m @ q \<and> standalone rt p m q))"
  using extract_orders_fullmatch[of rt subject html plain]
    extract_orders_token[of rt pre tok post subject plain html]
    valid_order_numbers_sound[of m rt t]
  unfolding order_fullmatch_def by blast

lemma sample_orders:
  "extract_orders rt_sample (u ''Order #12345678 x'') []
     (u ''ab 123456 12345 1234567890123456 c'') = [u ''12345678'', u ''123456'']"
  by (simp add: text_defs order_defs rt_sample_def Let_def)

lemma sample_scan:
  "valid_order_numbers_from_text rt_sample (u ''ab 123456 12345 1234567890123456 c'')
     = [u ''123456'']"
  by (simp add: text_defs order_defs rt_sample_def Let_def)

theorem order_candidates_are_standalone_runs_witness:
  "standalone rt_sample (u ''ab '') (u ''123456'') (u '' 12345 1234567890123456 c'')
   \<and> extract_orders rt_sample (u ''Order #12345678 x'') []
        (u ''ab 123456 12345 1234567890123456 c'') = [u ''12345678'', u ''123456'']
   \<and> u ''123456'' \<in> set (extract_orders rt_sample (u ''Order #12345678 x'') []
        (u ''ab 123456 12345 1234567890123456 c''))
   \<and> (\<exists>p q. u ''ab 123456 12345 1234567890123456 c'' = p @ u ''123456'' @ q
          \<and> standalone rt_sample p (u ''123456'') q)"
proof -
  have st: "standalone rt_sample (u ''ab '') (u ''123456'') (u '' 12345 1234567890123456 c'')"
    by (simp add: standalone_def last_opt_def head_opt_def word_opt_def order_fullmatch_def
          text_defs rt_sample_def)
  have sp: "u ''ab 123456 12345 1234567890123456 c''
      = u ''ab '' @ u ''123456'' @ u '' 12345 1234567890123456 c''"
    by (simp add: u_def)
  have mem: "u ''123456'' \<in> set (valid_order_numbers_from_text rt_sample
      (u ''ab 123456 12345 1234567890123456 c''))"
    by (simp add: sample_scan)
  from order_candidates_are_standalone_runs[of rt_sample "u ''Order #12345678 x''" "[]"
      "u ''ab 123456 12345 1234567890123456 c''" "u ''ab ''" "u ''123456''"
      "u '' 12345 1234567890123456 c''" "u ''123456''"
      "u ''ab 123456 12345 1234567890123456 c''"]
    st sp mem sample_orders
  show ?thesis by simp
qed

section \<open>The strict re-validation of the candidates\<close>

text \<open>
  C9, as stated, fails: \<open>\d\<close> is not restricted to ASCII. With the Arabic-Indic digits
  U+0661 to U+0666 as the plain text, the order extractor returns that string, which has
  no ASCII digit.
\<close>

theorem order_candidate_without_ascii_digit:
  "extract_orders rt_sample [] [] [1633, 1634, 1635, 1636, 1637, 1638]
     = [[1633, 1634, 1635, 1636, 1637, 1638]]
   \<and> \<not> list_all (list_all is_ascii_digit)
         (extract_orders rt_sample [] [] [1633, 1634, 1635, 1636, 1637, 1638])"
  by (simp add: text_defs order_defs rt_sample_def Let_def)

lemma ascii_digit:
  "order_fullmatch rt m \<Longrightarrow> list_all (\<lambda>c. c < 128) m \<Longrightarrow> list_all is_ascii_digit m"
proof -
  assume f: "order_fullmatch rt m" and a: "list_all (\<lambda>c. c < 128) m"
  have "is_ascii_digit c" if "c \<in> set m" for c
  proof -
    from that f have "is_digit rt c" by (simp add: order_fullmatch_def list_all_iff)
    moreover from that a have "c < 128" by (simp add: list_all_iff)
    ultimately show ?thesis by (simp add: is_digit_def)
  qed
  then show ?thesis by (simp add: list_all_iff)
qed

text \<open>
  C9, amended. Every candidate of the order extractor is a string of 6 to 14 characters
  of the class \<open>\d\<close>, which are ASCII digits when the candidate is ASCII; the strict
  re-validation \<open>re.fullmatch(r"\d{6,14}", o)\<close> of the candidates removes none.
\<close>

theorem revalidation_removes_no_candidate:
  "list_all (order_fullmatch rt) (extract_orders rt subject html plain)
   \<and> filter (order_fullmatch rt) (extract_orders rt subject html plain)
       = extract_orders rt subject html plain
   \<and> list_all (\<lambda>m. list_all (\<lambda>c. c < 128) m \<longrightarrow> list_all is_ascii_digit m)
       (extract_orders rt subject html plain)"
proof -
  note a = extract_orders_fullmatch[of rt subject html plain]
  then have "filter (order_fullmatch rt) (extract_orders rt subject html plain)
       = extract_orders rt subject html plain"
    by (simp add: list_all_iff)
  moreover have "list_all (\<lambda>m. list_all (\<lambda>c. c < 128) m \<longrightarrow> list_all is_ascii_digit m)
       (extract_orders rt subject html plain)"
    using a ascii_digit[of rt] unfolding list_all_iff[of _ "extract_orders rt subject html plain"]
    by blast
  ultimately show ?thesis using a by simp
qed

lemma sample_orders_mixed:
  "extract_orders rt_sample (u ''Order #12345678'') []
     [1633, 1634, 1635, 1636, 1637, 1638]
   = [u ''12345678'', [1633, 1634, 1635, 1636, 1637, 1638]]"
  by (simp add: text_defs order_defs rt_sample_def Let_def)

theorem revalidation_removes_no_candidate_witness:
  "extract_orders rt_sample (u ''Order #12345678'') [] [1633, 1634, 1635, 1636, 1637, 1638]
     = [u ''12345678'', [1633, 1634, 1635, 1636, 1637, 1638]]
   \<and> filter (order_fullmatch rt_sample) [u ''12345678'', [1633, 1634, 1635, 1636, 1637, 1638]]
     = [u ''12345678'', [1633, 1634, 1635, 1636, 1637, 1638]]
   \<and> list_all (\<lambda>c. c < 128) (u ''12345678'')
   \<and> list_all is_ascii_digit (u ''12345678'')"
  using revalidation_removes_no_candidate[of rt_sample "u ''Order #12345678''" "[]"
      "[1633, 1634, 1635, 1636, 1637, 1638]"]
    sample_orders_mixed
  by (simp add: u_def)

section \<open>The mailto fallback of the email extractor\<close>

lemma takeWhile_all_then:
  "list_all P xs \<Longrightarrow> takeWhile P (xs @ ys) = xs @ takeWhile P ys"
  by (simp add: list_all_iff takeWhile_append2)

lemma tld_is_dom: "email_tld_char c \<Longrightarrow> email_dom_char c"
  by (simp add: email_dom_char_def)

lemma not_class_chars:
  "\<not> email_local_char 64" "\<not> email_tld_char 46" "\<not> email_local_char 34"
  "\<not> email_dom_char 34" "email_dom_char 46" "\<not> email_dom_char 64"
  by (simp_all add: email_local_char_def email_dom_char_def email_tld_char_def
        is_ascii_alpha_def is_ascii_digit_def)

lemma ends_address_takeWhile:
  "ends_address rest \<Longrightarrow> takeWhile email_dom_char rest = [] \<and> takeWhile email_tld_char rest = []"
  by (cases rest) (auto simp: ends_address_def tld_is_dom)

lemma find_downward:
  "1 \<le> k \<Longrightarrow> k \<le> n \<Longrightarrow> P k \<Longrightarrow> (\<And>j. k < j \<Longrightarrow> j \<le> n \<Longrightarrow> \<not> P j) \<Longrightarrow>
     find P (rev [1 ..< Suc n]) = Some k"
proof (induction n)
  case 0
  then show ?case by simp
next
  case (Suc n)
  show ?case
  proof (cases "k = Suc n")
    case True
    with Suc.prems show ?thesis by simp
  next
    case False
    with Suc.prems have "k \<le> n" by simp
    moreover have "\<not> P (Suc n)" using Suc.prems(4)[of "Suc n"] False Suc.prems(2) by simp
    ultimately show ?thesis using Suc.IH Suc.prems by simp
  qed
qed

lemma EMAIL_match_address:
  assumes p: "address_parts local dmn tld" and e: "ends_address rest"
  shows "EMAIL_match (email_address local dmn tld @ rest)
           = Some (length (email_address local dmn tld))"
proof -
  from p have l: "local \<noteq> []" "list_all email_local_char local"
    and d: "dmn \<noteq> []" "list_all email_dom_char dmn"
    and t: "2 \<le> length tld" "list_all email_tld_char tld"
    by (auto simp: address_parts_def)
  let ?r2 = "dmn @ [46] @ tld @ rest"
  let ?P = "\<lambda>k. case drop k ?r2 of [] \<Rightarrow> False
                 | d # r3 \<Rightarrow> d = 46 \<and> 2 \<le> length (takeWhile email_tld_char r3)"
  have whole: "email_address local dmn tld @ rest = local @ 64 # ?r2"
    by (simp add: email_address_def)
  have n1: "takeWhile email_local_char (local @ 64 # ?r2) = local"
    using takeWhile_all_then[OF l(2), of "64 # ?r2"] not_class_chars by simp
  have td: "list_all email_dom_char tld" using t(2) tld_is_dom by (auto simp: list_all_iff)
  have "list_all email_dom_char (dmn @ [46] @ tld)" using d(2) td not_class_chars by simp
  from takeWhile_all_then[OF this, of rest] ends_address_takeWhile[OF e]
  have n2: "length (takeWhile email_dom_char ?r2) = length dmn + 1 + length tld" by simp
  have tl: "takeWhile email_tld_char (tld @ rest) = tld"
    using takeWhile_all_then[OF t(2), of rest] ends_address_takeWhile[OF e] by simp
  have Pk: "?P (length dmn)" using tl t(1) by simp
  have notP: "\<not> ?P j" if "length dmn < j" "j \<le> length dmn + 1 + length tld" for j
  proof -
    let ?i = "j - length dmn - 1"
    from that have j: "j = length dmn + Suc ?i" and n: "?i \<le> length tld" by auto
    have "drop (length dmn + Suc ?i) ?r2 = drop ?i tld @ rest" using n by simp
    then have dj: "drop j ?r2 = drop ?i tld @ rest" using j by simp
    show ?thesis
    proof (cases "?i < length tld")
      case True
      then obtain c cs where c: "drop ?i tld = c # cs" by (cases "drop ?i tld") auto
      then have "c \<in> set tld" by (metis in_set_dropD list.set_intros(1))
      with t(2) have "email_tld_char c" by (simp add: list_all_iff)
      then have "c \<noteq> 46" using not_class_chars by auto
      with dj c show ?thesis by simp
    next
      case False
      then have "drop j ?r2 = rest" using dj by simp
      with e show ?thesis using not_class_chars by (cases rest) (auto simp: ends_address_def)
    qed
  qed
  have k1: "1 \<le> length dmn" using d(1) by (cases dmn) auto
  have f: "find ?P (rev [1 ..< Suc (length dmn + 1 + length tld)]) = Some (length dmn)"
  proof (rule find_downward[where P = "?P"])
    show "1 \<le> length dmn" by (rule k1)
    show "length dmn \<le> length dmn + 1 + length tld" by simp
    show "?P (length dmn)" by (rule Pk)
    show "\<not> ?P j" if "length dmn < j" "j \<le> length dmn + 1 + length tld" for j
      using that by (rule notP)
  qed
  have len: "length (email_address local dmn tld) = length local + 1 + length dmn + 1 + length tld"
    by (simp add: email_address_def)
  have n1pos: "length local \<noteq> 0" using l(1) by simp
  show ?thesis
    unfolding whole EMAIL_match_def n1 Let_def
    using f n2 tl n1pos len by (simp del: upt_Suc)
qed

lemma EMAIL_search_address:
  assumes "address_parts local dmn tld" and "ends_address rest"
  shows "EMAIL_search (email_address local dmn tld @ rest) = Some (email_address local dmn tld)"
proof -
  obtain c cs where c: "email_address local dmn tld @ rest = c # cs"
    using assms(1) by (cases "email_address local dmn tld @ rest")
      (auto simp: email_address_def address_parts_def)
  from EMAIL_match_address[OF assms] show ?thesis
    unfolding c[symmetric] using c by (metis EMAIL_search.simps(2) option.simps(5) append_eq_conv_conj)
qed

lemma ci_prefix_append: "ci_prefix p s \<Longrightarrow> ci_prefix p (s @ t)"
  by (induction p s rule: ci_prefix.induct) auto

lemma address_no_quote:
  assumes "address_parts local dmn tld"
  shows "list_all (\<lambda>x. x \<noteq> 34) (email_address local dmn tld)"
proof -
  have "\<not> email_tld_char 34" using tld_is_dom not_class_chars by blast
  with assms not_class_chars show ?thesis
    by (auto simp: address_parts_def email_address_def list_all_iff)
qed

lemma ends_address_unquoted: "ends_address rest \<Longrightarrow> ends_address (takeWhile (\<lambda>x. x \<noteq> 34) rest)"
  by (cases rest) (auto simp: ends_address_def)

lemma ci_prefix_nth:
  "ci_prefix p s \<Longrightarrow> k < length p \<Longrightarrow> k < length s \<and> ci_eq (p ! k) (s ! k)"
proof (induction p s arbitrary: k rule: ci_prefix.induct)
  case (1 cs)
  then show ?case by simp
next
  case (2 p ps)
  then show ?case by simp
next
  case (3 p ps c cs)
  then show ?case by (cases k) auto
qed

lemma mailto_letters:
  assumes "k < 6" and "ci_eq (u ''mailto:'' ! k) c"
  shows "c \<noteq> 58"
proof -
  from assms(1) consider "k = 0" | "k = 1" | "k = 2" | "k = 3" | "k = 4" | "k = 5" by linarith
  then show ?thesis using assms(2) by cases (auto simp: u_def ci_eq_def)
qed

lemma mailto_colon: "ci_prefix (u ''mailto:'') s \<Longrightarrow> 6 < length s \<and> s ! 6 = 58"
  using ci_prefix_nth[of "u ''mailto:''" s 6] by (auto simp: u_def ci_eq_def)

lemma no_scheme_before:
  assumes pre: "pre \<noteq> []" "list_all (\<lambda>c. c \<noteq> 58) pre"
    and s: "length scheme = 7" "ci_prefix (u ''mailto:'') scheme"
  shows "\<not> ci_prefix (u ''mailto:'') (pre @ scheme @ body)"
proof
  assume "ci_prefix (u ''mailto:'') (pre @ scheme @ body)"
  from mailto_colon[OF this] have six: "(pre @ scheme @ body) ! 6 = 58" by simp
  show False
  proof (cases "6 < length pre")
    case True
    then have "(pre @ scheme @ body) ! 6 = pre ! 6" by (simp add: nth_append)
    moreover have "pre ! 6 \<noteq> 58" using pre(2) True by (simp add: list_all_length)
    ultimately show False using six by simp
  next
    case False
    let ?k = "6 - length pre"
    have k: "?k < 6" using pre(1) False by (cases pre) auto
    have "(pre @ scheme @ body) ! 6 = (scheme @ body) ! ?k" using False by (simp add: nth_append)
    also have "\<dots> = scheme ! ?k" using k s(1) by (simp add: nth_append)
    finally have "scheme ! ?k = 58" using six by simp
    moreover have "ci_eq (u ''mailto:'' ! ?k) (scheme ! ?k)"
      using ci_prefix_nth[OF s(2), of ?k] k by (simp add: u_def)
    ultimately show False using mailto_letters[OF k] by auto
  qed
qed

lemma mailto_search_at_scheme:
  assumes s: "length scheme = 7" "ci_prefix (u ''mailto:'') scheme"
    and b: "takeWhile (\<lambda>x. x \<noteq> 34) body \<noteq> []"
  shows "mailto_search (scheme @ body) = Some (takeWhile (\<lambda>x. x \<noteq> 34) body)"
proof -
  obtain c cs where c: "scheme @ body = c # cs" using s(1) by (cases scheme) auto
  have d: "drop 7 (c # cs) = body" unfolding c[symmetric] using s(1) by simp
  have cond: "ci_prefix (u ''mailto:'') (c # cs)"
    unfolding c[symmetric] by (rule ci_prefix_append[OF s(2)])
  have "mailto_search (c # cs) = Some (takeWhile (\<lambda>x. x \<noteq> 34) body)"
    using cond b by (simp only: mailto_search.simps d) simp
  then show ?thesis by (simp only: c)
qed

lemma mailto_search_skips:
  assumes s: "length scheme = 7" "ci_prefix (u ''mailto:'') scheme"
  shows "list_all (\<lambda>c. c \<noteq> 58) pre \<Longrightarrow>
           mailto_search (pre @ scheme @ body) = mailto_search (scheme @ body)"
proof (induction pre)
  case Nil
  show ?case by simp
next
  case (Cons p ps)
  have "\<not> ci_prefix (u ''mailto:'') ((p # ps) @ scheme @ body)"
    by (rule no_scheme_before[OF _ Cons.prems s]) simp
  then have "mailto_search ((p # ps) @ scheme @ body) = mailto_search (ps @ scheme @ body)"
    by simp
  with Cons show ?case by simp
qed

lemma EMAIL_match_in_lead_in:
  assumes ne: "junk \<noteq> []" and at: "list_all (\<lambda>c. c \<noteq> 64) junk"
    and nl: "\<not> email_local_char (last junk)"
  shows "EMAIL_match (junk @ x) = None"
proof -
  let ?n = "length (takeWhile email_local_char junk)"
  have mem: "last junk \<in> set junk" using ne by simp
  have tw: "takeWhile email_local_char (junk @ x) = takeWhile email_local_char junk"
    using mem nl by (rule takeWhile_append1)
  have dw: "dropWhile email_local_char junk \<noteq> []" using mem nl by auto
  then obtain c cs where c: "dropWhile email_local_char junk = c # cs"
    by (cases "dropWhile email_local_char junk") auto
  have "c \<in> set junk" by (metis c list.set_intros(1) set_dropWhileD)
  then have c64: "c \<noteq> 64" using at by (simp add: list_all_iff)
  have "drop ?n (junk @ x) = dropWhile email_local_char junk @ x"
    by (simp add: dropWhile_eq_drop length_takeWhile_le)
  then have dr: "drop ?n (junk @ x) = c # (cs @ x)" using c by simp
  show ?thesis unfolding EMAIL_match_def tw Let_def dr using c64 by simp
qed

lemma EMAIL_search_skips:
  "list_all (\<lambda>c. c \<noteq> 64) junk \<Longrightarrow> junk = [] \<or> \<not> email_local_char (last junk) \<Longrightarrow>
     EMAIL_search (junk @ x) = EMAIL_search x"
proof (induction junk)
  case Nil
  show ?case by simp
next
  case (Cons j js)
  have nl: "\<not> email_local_char (last (j # js))" using Cons.prems(2) by simp
  have "EMAIL_match ((j # js) @ x) = None"
    by (rule EMAIL_match_in_lead_in[OF _ Cons.prems(1) nl]) simp
  then have step: "EMAIL_search ((j # js) @ x) = EMAIL_search (js @ x)" by simp
  have "js = [] \<or> \<not> email_local_char (last js)" using nl by (cases js) auto
  moreover have "list_all (\<lambda>c. c \<noteq> 64) js" using Cons.prems(1) by simp
  ultimately show ?case using Cons.IH step by simp
qed

lemma lead_in_parts:
  assumes "lead_in junk"
  shows "list_all (\<lambda>c. c \<noteq> 64) junk" "list_all (\<lambda>c. c \<noteq> 34) junk"
    "junk = [] \<or> \<not> email_local_char (last junk)"
  using assms by (auto simp: lead_in_def last_opt_def list_all_iff split: if_splits)

lemma mailto_email_address:
  assumes h: "map_of (el_attrs a) (u ''href'')
        = Some (pre @ scheme @ junk @ email_address local dmn tld @ rest)"
    and pre: "list_all (\<lambda>c. c \<noteq> 58) pre"
    and s: "length scheme = 7" "ci_prefix (u ''mailto:'') scheme"
    and j: "lead_in junk"
    and p: "address_parts local dmn tld" and e: "ends_address rest"
  shows "mailto_email rt a = [lower rt (email_address local dmn tld)]"
proof -
  let ?addr = "email_address local dmn tld"
  let ?rest = "takeWhile (\<lambda>x. x \<noteq> 34) rest"
  note jp = lead_in_parts[OF j]
  have "list_all (\<lambda>x. x \<noteq> 34) (junk @ ?addr)"
    using jp(2) address_no_quote[OF p] by simp
  from takeWhile_all_then[OF this, of rest]
  have tw: "takeWhile (\<lambda>x. x \<noteq> 34) (junk @ ?addr @ rest) = junk @ ?addr @ ?rest" by simp
  have "?addr \<noteq> []" by (simp add: email_address_def)
  then have ne: "takeWhile (\<lambda>x. x \<noteq> 34) (junk @ ?addr @ rest) \<noteq> []" unfolding tw by simp
  have "mailto_search (pre @ scheme @ junk @ ?addr @ rest) = Some (junk @ ?addr @ ?rest)"
    using mailto_search_skips[OF s pre, of "junk @ ?addr @ rest"]
      mailto_search_at_scheme[OF s ne] tw by simp
  moreover have "EMAIL_search (junk @ ?addr @ ?rest) = Some ?addr"
    using EMAIL_search_skips[OF jp(1) jp(3), of "?addr @ ?rest"]
      EMAIL_search_address[OF p ends_address_unquoted[OF e]] by simp
  ultimately show ?thesis using h by (simp add: mailto_email_def found_email_def)
qed

lemma mailto_email_at_most_one: "length (mailto_email rt a) \<le> 1"
  by (simp add: mailto_email_def found_email_def split: option.splits)

lemma extract_emails_from_html_union:
  "html \<noteq> [] \<Longrightarrow>
     set (extract_emails_from_html rt html)
       = set (cue_link_emails rt (soup rt html)) \<union> set (cue_button_emails rt (soup rt html))
         \<union> set (mailto_fallback_emails rt (soup rt html))"
  by (auto simp: extract_emails_from_html_def)

lemma mailto_fallback_member:
  assumes "a \<in> set (doc_elements d)" "el_name a = u ''a''"
    and "map_of (el_attrs a) (u ''href'')
        = Some (pre @ scheme @ junk @ email_address local dmn tld @ rest)"
    and "list_all (\<lambda>c. c \<noteq> 58) pre"
    and "length scheme = 7" "ci_prefix (u ''mailto:'') scheme"
    and "lead_in junk" and "address_parts local dmn tld" and "ends_address rest"
  shows "lower rt (email_address local dmn tld) \<in> set (mailto_fallback_emails rt d)"
proof -
  have "a \<in> set (anchors_with_href d)" using assms(1,2,3) by (simp add: anchors_with_href_def)
  moreover note mailto_email_address[OF assms(3-9), of rt]
  ultimately show ?thesis by (force simp: mailto_fallback_emails_def)
qed

text \<open>
  C8, as stated, fails: of the two addresses in the link
  \<open>mailto:first@one.co,then@two.co\<close>, whose text has no cue, the email extractor
  returns the first only; \<open>then@two.co\<close>, an address of the grammar of the program that
  stands only inside that link, is not emitted.
\<close>

theorem second_address_of_link_not_emitted:
  "address_parts (u ''then'') (u ''two'') (u ''co'')
   \<and> \<not> has_cue rt_two_addresses (hd (doc_elements doc_two_addresses))
   \<and> extract_emails_from_html rt_two_addresses (u ''<p>'') = [u ''first@one.co'']
   \<and> u ''then@two.co'' \<notin> set (extract_emails_from_html rt_two_addresses (u ''<p>''))"
  by (simp add: address_parts_def text_defs email_defs rt_two_addresses_def rt_sample_def
        doc_two_addresses_def Let_def)

text \<open>
  C8, amended. Let an anchor of the parsed document have an \<open>href\<close> that holds, behind
  a text without colon, the scheme \<open>mailto:\<close> (in any case), then a text in which no
  address starts, then an address of the grammar of the program, followed by nothing or
  by a character that does not continue its domain. Then, whatever the text of the
  anchor, the unconditional loop over the anchors takes from it that address and no
  other, lower-cased, and the address is among the emails of the document, which are the
  union of the results of the three loops. No anchor gives that loop more than one
  address.
\<close>

theorem mailto_fallback_emits_address:
  assumes "html \<noteq> []" and "a \<in> set (doc_elements (soup rt html))" and "el_name a = u ''a''"
    and "map_of (el_attrs a) (u ''href'')
        = Some (pre @ scheme @ junk @ email_address local dmn tld @ rest)"
    and "list_all (\<lambda>c. c \<noteq> 58) pre"
    and "length scheme = 7" and "ci_prefix (u ''mailto:'') scheme"
    and "lead_in junk" and "address_parts local dmn tld" and "ends_address rest"
  shows "lower rt (email_address local dmn tld) \<in> set (extract_emails_from_html rt html)
         \<and> mailto_email rt a = [lower rt (email_address local dmn tld)]
         \<and> length (mailto_email rt b) \<le> 1
         \<and> set (extract_emails_from_html rt html)
             = set (cue_link_emails rt (soup rt html)) \<union> set (cue_button_emails rt (soup rt html))
               \<union> set (mailto_fallback_emails rt (soup rt html))"
  using mailto_fallback_member[OF assms(2-10), of rt] mailto_email_address[OF assms(4-10), of rt]
    extract_emails_from_html_union[OF assms(1), of rt] mailto_email_at_most_one[of rt b]
  by simp

lemma sample_link:
  "extract_emails_from_html rt_plain_link (u ''<p>'') = [u ''jane.doe@example.com'']"
  "cue_link_emails rt_plain_link doc_plain_link = []"
  "cue_button_emails rt_plain_link doc_plain_link = []"
  "\<not> has_cue rt_plain_link (hd (doc_elements doc_plain_link))"
  by (simp_all add: text_defs email_defs rt_plain_link_def rt_sample_def doc_plain_link_def Let_def)

theorem mailto_fallback_emits_address_witness:
  "address_parts (u ''Jane.Doe'') (u ''Example'') (u ''com'')
   \<and> lead_in (u ''?to='')
   \<and> ends_address (u ''&subject=Hi'')
   \<and> ci_prefix (u ''mailto:'') (u ''MAILTO:'')
   \<and> \<not> has_cue rt_plain_link (hd (doc_elements doc_plain_link))
   \<and> cue_link_emails rt_plain_link doc_plain_link = []
   \<and> cue_button_emails rt_plain_link doc_plain_link = []
   \<and> mailto_email rt_plain_link (hd (doc_elements doc_plain_link)) = [u ''jane.doe@example.com'']
   \<and> u ''jane.doe@example.com'' \<in> set (extract_emails_from_html rt_plain_link (u ''<p>''))"
proof -
  let ?a = "hd (doc_elements doc_plain_link)"
  have h: "u ''<p>'' \<noteq> []" by (simp add: u_def)
  have s: "soup rt_plain_link (u ''<p>'') = doc_plain_link" by (simp add: rt_plain_link_def)
  have m: "?a \<in> set (doc_elements (soup rt_plain_link (u ''<p>'')))"
    unfolding s by (simp add: doc_plain_link_def)
  have n: "el_name ?a = u ''a''" by (simp add: doc_plain_link_def)
  have hr: "map_of (el_attrs ?a) (u ''href'')
      = Some (u ''see '' @ u ''MAILTO:'' @ u ''?to=''
              @ email_address (u ''Jane.Doe'') (u ''Example'') (u ''com'') @ u ''&subject=Hi'')"
    by (simp add: doc_plain_link_def email_address_def u_def)
  have pc: "list_all (\<lambda>c. c \<noteq> 58) (u ''see '')" by (simp add: u_def)
  have l7: "length (u ''MAILTO:'') = 7" by (simp add: u_def)
  have ci: "ci_prefix (u ''mailto:'') (u ''MAILTO:'')" by (simp add: text_defs)
  have li: "lead_in (u ''?to='')"
    by (simp add: lead_in_def last_opt_def text_defs email_defs)
  have ap: "address_parts (u ''Jane.Doe'') (u ''Example'') (u ''com'')"
    by (simp add: address_parts_def text_defs email_defs)
  have ea: "ends_address (u ''&subject=Hi'')"
    by (simp add: ends_address_def text_defs email_defs)
  have lo: "lower rt_plain_link (email_address (u ''Jane.Doe'') (u ''Example'') (u ''com''))
       = u ''jane.doe@example.com''"
    by (simp add: email_address_def text_defs)
  note t = mailto_fallback_emits_address[OF h m n hr pc l7 ci li ap ea, of ?a]
  from t have m1: "u ''jane.doe@example.com'' \<in> set (extract_emails_from_html rt_plain_link (u ''<p>''))"
    unfolding lo by (rule conjunct1)
  from t have m2: "mailto_email rt_plain_link ?a = [u ''jane.doe@example.com'']"
    unfolding lo by blast
  from m1 m2 ap li ea ci sample_link(2,3,4) show ?thesis by blast
qed

end
